theory Spec2Isabelle
  imports Complex_Main "HOL-Library.Word" "HOL-Library.AList" "HOL-Library.Multiset"
begin

section \<open>Images\<close>

text \<open>
  An image is what \<^verbatim>\<open>cv2.imread\<close> returns: a three-dimensional array of unsigned 8-bit
  samples, indexed \<^verbatim>\<open>img[row][column][channel]\<close>. It is modelled as a list of rows, a row
  as a list of pixels and a pixel as the list of its channel samples. \<open>has_shape\<close>
  says that such a nested list is a rectangular array of the given shape; an array with
  no rows has no recorded width, which only matters for images too small for the
  fixed-window crop.
\<close>

type_synonym sample = "8 word"
type_synonym pixel = "sample list"
type_synonym image = "pixel list list"

definition rows_of :: "image \<Rightarrow> nat" where
  "rows_of img = length img"

definition cols_of :: "image \<Rightarrow> nat" where
  "cols_of img = (case img of [] \<Rightarrow> 0 | r # _ \<Rightarrow> length r)"

definition dim_of :: "image \<Rightarrow> nat" where
  "dim_of img = (case img of [] \<Rightarrow> 0 | [] # _ \<Rightarrow> 0 | (p # _) # _ \<Rightarrow> length p)"

text \<open>\<^verbatim>\<open>img.shape\<close>, unpacked by every transform as \<^verbatim>\<open>rows, cols, dim\<close> (the third component is \<open>d\<close> below).\<close>

definition shape :: "image \<Rightarrow> nat \<times> nat \<times> nat" where
  "shape img = (rows_of img, cols_of img, dim_of img)"

definition has_shape :: "image \<Rightarrow> nat \<Rightarrow> nat \<Rightarrow> nat \<Rightarrow> bool" where
  "has_shape img h w d \<longleftrightarrow>
     length img = h \<and> list_all (\<lambda>r. length r = w \<and> list_all (\<lambda>p. length p = d) r) img"

text \<open>
  The slice \<^verbatim>\<open>img[y0:y1, x0:x1]\<close> for indices that are not negative: numpy clips a
  slice to the array, it never raises.
\<close>

definition slice2 :: "image \<Rightarrow> nat \<Rightarrow> nat \<Rightarrow> nat \<Rightarrow> nat \<Rightarrow> image" where
  "slice2 img y0 y1 x0 x1 = map (\<lambda>r. take (x1 - x0) (drop x0 r)) (take (y1 - y0) (drop y0 img))"

text \<open>\<^verbatim>\<open>np.zeros(shape, dtype)\<close> for a three-dimensional shape.\<close>

definition np_zeros :: "nat \<times> nat \<times> nat \<Rightarrow> image" where
  "np_zeros s = (case s of (h, w, d) \<Rightarrow> replicate h (replicate w (replicate d 0)))"

section \<open>Contrast\<close>

text \<open>
  \<^verbatim>\<open>cv2.addWeighted(src1, alpha, src2, beta, gamma)\<close> computes, sample by sample,
  \<^verbatim>\<open>saturate_cast<uchar>(src1*alpha + src2*beta + gamma)\<close>. The weights the program passes are
  integers, so the sum is an integer and is computed here in \<open>int\<close>; \<open>saturate_cast_uchar\<close>
  is OpenCV's conversion of an integer to an unsigned byte.
\<close>

definition saturate_cast_uchar :: "int \<Rightarrow> sample" where
  "saturate_cast_uchar v =
     (if 0 \<le> v \<and> v \<le> 255 then word_of_int v else if v > 0 then 255 else 0)"

definition addWeighted :: "image \<Rightarrow> int \<Rightarrow> image \<Rightarrow> int \<Rightarrow> int \<Rightarrow> image" where
  "addWeighted src1 alpha src2 beta gamma =
     map2 (map2 (map2 (\<lambda>a b. saturate_cast_uchar (uint a * alpha + uint b * beta + gamma))))
       src1 src2"


section \<open>Exceptions and random draws\<close>

text \<open>
  The exceptions the two scripts can raise. A function that can raise returns
  \<open>error + 'a\<close> with \<open>Inl\<close> for the exception.
\<close>

datatype error =
    ValueError | AttributeError | IndexError | Cv2Error | ImsaveError
  | FileNotFoundError | NotADirectoryError | FileExistsError | IsADirectoryError
  | SameFileError

text \<open>
  The state of numpy's global generator is the stream of raw numbers it has still to
  deliver; every draw consumes the first one. Quantifying over the stream is quantifying
  over every possible sequence of draws.
\<close>

type_synonym rng = "nat \<Rightarrow> nat"

definition rng_tail :: "rng \<Rightarrow> rng" where
  "rng_tail g = (\<lambda>n. g (Suc n))"

text \<open>
  \<^verbatim>\<open>np.random.randint(low, high)\<close>: an integer of the half-open range from \<open>low\<close>
  (included) to \<open>high\<close> (excluded); \<^verbatim>\<open>ValueError\<close> when the range is empty.
\<close>

definition randint :: "int \<Rightarrow> int \<Rightarrow> rng \<Rightarrow> error + (int \<times> rng)" where
  "randint low high g =
     (if low \<ge> high then Inl ValueError
      else Inr (low + int (g 0 mod nat (high - low)), rng_tail g))"

text \<open>
  \<^verbatim>\<open>np.random.uniform(low, high)\<close> is \<open>low + (high - low) * u\<close> for a sample \<open>u\<close> of
  \<open>[0, 1)\<close> with 53 random bits. Floating-point numbers are modelled by the rationals they
  denote and the rounding of their arithmetic is left out: no property stated below
  depends on the value drawn.
\<close>

definition uniform :: "rat \<Rightarrow> rat \<Rightarrow> rng \<Rightarrow> rat \<times> rng" where
  "uniform low high g =
     (low + (high - low) * (of_nat (g 0 mod 2 ^ 53) / 2 ^ 53), rng_tail g)"

section \<open>The OpenCV calls\<close>

text \<open>
  A transformation matrix is a 3 by 3 matrix (\<^verbatim>\<open>warpPerspective\<close>) or a 2 by 3 matrix
  (\<^verbatim>\<open>warpAffine\<close>), written row by row.
\<close>

type_synonym vec3 = "rat \<times> rat \<times> rat"
type_synonym mat3 = "vec3 \<times> vec3 \<times> vec3"
type_synonym mat23 = "vec3 \<times> vec3"

text \<open>
  The library functions whose results depend on floating-point arithmetic are parameters
  of the model: the interpolation of a sample at a source position that is not a pixel
  position (one value for each channel), the three matrix constructors, and the value of
  channel \<open>c\<close> of pixel \<open>(x, y)\<close> of the result of the box filter \<^verbatim>\<open>cv2.blur\<close>, of
  \<^verbatim>\<open>cv2.resize\<close> and of \<^verbatim>\<open>cv2.imread\<close> on the file written from an array. Nothing is
  assumed about them. The shape of every result is fixed by
  the model: a warp and a resize return an array of the requested size, the box filter
  one of the size of its source, each with the channels of the source.
\<close>

record cv2 =
  cv2_interp :: "image \<Rightarrow> rat \<Rightarrow> rat \<Rightarrow> nat \<Rightarrow> sample"
  cv2_getRotationMatrix2D :: "rat \<times> rat \<Rightarrow> int \<Rightarrow> rat \<Rightarrow> mat23"
  cv2_getAffineTransform :: "(rat \<times> rat) list \<Rightarrow> (rat \<times> rat) list \<Rightarrow> mat23"
  cv2_getPerspectiveTransform :: "(rat \<times> rat) list \<Rightarrow> (rat \<times> rat) list \<Rightarrow> mat3"
  cv2_blur_at :: "image \<Rightarrow> nat \<times> nat \<Rightarrow> nat \<Rightarrow> nat \<Rightarrow> nat \<Rightarrow> sample"
  cv2_resize_at :: "image \<Rightarrow> nat \<times> nat \<Rightarrow> nat \<Rightarrow> nat \<Rightarrow> nat \<Rightarrow> sample"
  cv2_imread_at :: "image \<Rightarrow> nat \<Rightarrow> nat \<Rightarrow> nat \<Rightarrow> sample"

text \<open>
  \<^verbatim>\<open>warpPerspective(src, M, dsize)\<close> without \<^verbatim>\<open>WARP_INVERSE_MAP\<close> inverts \<open>M\<close> and
  fills every pixel \<open>(x, y)\<close> of a destination of \<open>dsize = (width, height)\<close> with the
  source sample at \<open>(X / W, Y / W)\<close>, where \<open>(X, Y, W)\<close> is the inverse of \<open>M\<close> applied
  to \<open>(x, y, 1)\<close>. A singular \<open>M\<close> has the zero matrix for its inverse, and a zero \<open>W\<close>
  gives the position \<open>(0, 0)\<close>. At a pixel position the sample is the source pixel, or
  the border value 0 (\<^verbatim>\<open>BORDER_CONSTANT\<close>, the default) outside the source; elsewhere it
  is interpolated.
\<close>

definition det3 :: "mat3 \<Rightarrow> rat" where
  "det3 M = (case M of ((a, b, c), (d, e, f), (g, h, i)) \<Rightarrow>
     a * (e * i - f * h) - b * (d * i - f * g) + c * (d * h - e * g))"

definition invert3 :: "mat3 \<Rightarrow> mat3" where
  "invert3 M = (case M of ((a, b, c), (d, e, f), (g, h, i)) \<Rightarrow>
     (let D = det3 M in
      if D = 0 then ((0, 0, 0), (0, 0, 0), (0, 0, 0))
      else (((e * i - f * h) / D, (c * h - b * i) / D, (b * f - c * e) / D),
            ((f * g - d * i) / D, (a * i - c * g) / D, (c * d - a * f) / D),
            ((d * h - e * g) / D, (b * g - a * h) / D, (a * e - b * d) / D))))"

definition source_position :: "mat3 \<Rightarrow> nat \<Rightarrow> nat \<Rightarrow> rat \<times> rat" where
  "source_position N x y = (case N of ((a, b, c), (d, e, f), (g, h, i)) \<Rightarrow>
     (let X = a * of_nat x + b * of_nat y + c;
          Y = d * of_nat x + e * of_nat y + f;
          W = g * of_nat x + h * of_nat y + i
      in if W = 0 then (0, 0) else (X / W, Y / W)))"

definition fetch :: "image \<Rightarrow> int \<Rightarrow> int \<Rightarrow> pixel" where
  "fetch src ix iy =
     (if 0 \<le> ix \<and> ix < int (cols_of src) \<and> 0 \<le> iy \<and> iy < int (rows_of src)
      then src ! nat iy ! nat ix
      else replicate (dim_of src) 0)"

definition warp_pixel :: "cv2 \<Rightarrow> image \<Rightarrow> mat3 \<Rightarrow> nat \<Rightarrow> nat \<Rightarrow> pixel" where
  "warp_pixel lib src N x y =
     (case source_position N x y of (sx, sy) \<Rightarrow>
        if of_int \<lfloor>sx\<rfloor> = sx \<and> of_int \<lfloor>sy\<rfloor> = sy then fetch src \<lfloor>sx\<rfloor> \<lfloor>sy\<rfloor>
        else map (cv2_interp lib src sx sy) [0..<dim_of src])"

text \<open>OpenCV refuses a source without samples (\<^verbatim>\<open>_src.total() > 0\<close>).\<close>

definition warpPerspective :: "cv2 \<Rightarrow> image \<Rightarrow> mat3 \<Rightarrow> nat \<times> nat \<Rightarrow> error + image" where
  "warpPerspective lib src M dsize =
     (case dsize of (w, h) \<Rightarrow>
        if rows_of src * cols_of src * dim_of src = 0 then Inl Cv2Error
        else Inr (map (\<lambda>y. map (\<lambda>x. warp_pixel lib src (invert3 M) x y) [0..<w]) [0..<h]))"

text \<open>An affine map is the perspective map whose last row is \<open>(0, 0, 1)\<close>.\<close>

definition warpAffine :: "cv2 \<Rightarrow> image \<Rightarrow> mat23 \<Rightarrow> nat \<times> nat \<Rightarrow> error + image" where
  "warpAffine lib src M dsize =
     (case M of (r1, r2) \<Rightarrow> warpPerspective lib src (r1, r2, (0, 0, 1)) dsize)"

section \<open>The class Augmentation\<close>

text \<open>
  Every method takes the image and the state of the random generator and returns the
  exception it raises, or its result with the state of the generator after its draws.
  The draws are made in the order in which Python evaluates them.
\<close>

type_synonym 'a result = "error + ('a \<times> rng)"

text \<open>Sequencing: an exception raised by the first step ends the computation.\<close>

definition and_then :: "'e + 'a \<Rightarrow> ('a \<Rightarrow> 'e + 'b) \<Rightarrow> 'e + 'b" where
  "and_then m f = (case m of Inl e \<Rightarrow> Inl e | Inr x \<Rightarrow> f x)"

definition translation_matrix :: "rng \<Rightarrow> mat3 result" where
  "translation_matrix g =
     and_then (randint (- 100) 100 g) (\<lambda>(tx, g1).
     and_then (randint (- 100) 100 g1) (\<lambda>(ty, g2).
       Inr (((1, 0, of_int tx), (0, 1, of_int ty), (0, 0, 1)), g2)))"

text \<open>The two shifts of a translation matrix: the last entries of its first two rows.\<close>

definition x_shift :: "mat3 \<Rightarrow> rat" where
  "x_shift M = (case M of ((a, b, c), r2, r3) \<Rightarrow> c)"

definition y_shift :: "mat3 \<Rightarrow> rat" where
  "y_shift M = (case M of (r1, (d, e, f), r3) \<Rightarrow> f)"

definition translation :: "cv2 \<Rightarrow> image \<Rightarrow> rng \<Rightarrow> image result" where
  "translation lib img g =
     (case shape img of (rows, cols, d) \<Rightarrow>
        and_then (translation_matrix g) (\<lambda>(M, g').
        and_then (warpPerspective lib img M (cols, rows)) (\<lambda>translated_img.
          Inr (slice2 translated_img 50 150 50 150, g'))))"

definition shear_matrix :: "int \<Rightarrow> rng \<Rightarrow> mat3 \<times> rng" where
  "shear_matrix axis g =
     (case uniform (1 / 10) (2 / 10) g of (u, g') \<Rightarrow>
        (if axis = 0 then ((1, u, 0), (0, 1, 0), (0, 0, 1))
         else ((1, 0, 0), (u, 1, 0), (0, 0, 1)), g'))"

definition shear :: "cv2 \<Rightarrow> image \<Rightarrow> int \<Rightarrow> rng \<Rightarrow> image result" where
  "shear lib img axis g =
     (case shape img of (rows, cols, d) \<Rightarrow>
      case shear_matrix axis g of (M, g') \<Rightarrow>
        and_then (warpPerspective lib img M (cols, rows)) (\<lambda>sheared_img.
          Inr (slice2 sheared_img 50 150 50 150, g')))"

definition flip_matrix :: "nat \<Rightarrow> nat \<Rightarrow> int \<Rightarrow> mat3" where
  "flip_matrix rows cols axis =
     (if axis = 0 then ((- 1, 0, of_nat cols), (0, 1, 0), (0, 0, 1))
      else ((1, 0, 0), (0, - 1, of_nat rows), (0, 0, 1)))"

definition flip :: "cv2 \<Rightarrow> image \<Rightarrow> int \<Rightarrow> rng \<Rightarrow> image result" where
  "flip lib img axis g =
     (case shape img of (rows, cols, d) \<Rightarrow>
        and_then (warpPerspective lib img (flip_matrix rows cols axis) (cols, rows))
          (\<lambda>reflected_img. Inr (reflected_img, g)))"

definition rotate :: "cv2 \<Rightarrow> image \<Rightarrow> rng \<Rightarrow> image result" where
  "rotate lib img g =
     (case shape img of (rows, cols, d) \<Rightarrow>
        and_then (randint (- 180) 180 g) (\<lambda>(angle, g').
        and_then (warpAffine lib img
            (cv2_getRotationMatrix2D lib (of_nat cols / 2, of_nat rows / 2) angle 1) (cols, rows))
          (\<lambda>rotated_img. Inr (slice2 rotated_img 50 150 50 150, g'))))"

definition crop :: "cv2 \<Rightarrow> image \<Rightarrow> rng \<Rightarrow> image result" where
  "crop lib img g =
     (case shape img of (rows, cols, d) \<Rightarrow>
        and_then (randint 0 (int cols - 100) g) (\<lambda>(x, g1).
        and_then (randint 0 (int rows - 100) g1) (\<lambda>(y, g2).
          Inr (slice2 img (nat y) (nat (y + 100)) (nat x) (nat (x + 100)), g2))))"

text \<open>
  The draws of \<open>skew\<close> and \<open>distortion\<close>: \<open>n\<close> calls of \<^verbatim>\<open>np.random.randint(0, 30)\<close>,
  in order.
\<close>

fun jitters :: "nat \<Rightarrow> rng \<Rightarrow> (int list) result" where
  "jitters 0 g = Inr ([], g)"
| "jitters (Suc n) g =
     and_then (randint 0 30 g) (\<lambda>(j, g1).
     and_then (jitters n g1) (\<lambda>(js, g2). Inr (j # js, g2)))"

definition skew_points :: "nat \<Rightarrow> nat \<Rightarrow> int list \<Rightarrow> (rat \<times> rat) list \<times> (rat \<times> rat) list" where
  "skew_points rows cols js =
     ([(0, 0), (of_int (int cols - 1), 0), (0, of_int (int rows - 1))],
      [(of_int (js ! 0), of_int (js ! 1)),
       (of_int (int cols - js ! 2), of_int (js ! 3)),
       (of_int (js ! 4), of_int (int rows - js ! 5))])"

definition skew :: "cv2 \<Rightarrow> image \<Rightarrow> rng \<Rightarrow> image result" where
  "skew lib img g =
     (case shape img of (rows, cols, d) \<Rightarrow>
        and_then (jitters 6 g) (\<lambda>(js, g').
        case skew_points rows cols js of (pts1, pts2) \<Rightarrow>
        and_then (warpAffine lib img (cv2_getAffineTransform lib pts1 pts2) (cols, rows))
          (\<lambda>skewed_img. Inr (slice2 skewed_img 50 150 50 150, g'))))"

definition distortion_points ::
  "nat \<Rightarrow> nat \<Rightarrow> int list \<Rightarrow> (rat \<times> rat) list \<times> (rat \<times> rat) list" where
  "distortion_points rows cols js =
     ([(0, 0), (of_int (int cols - 1), 0), (0, of_int (int rows - 1)),
       (of_int (int cols - 1), of_int (int rows - 1))],
      [(of_int (js ! 0), of_int (js ! 1)),
       (of_int (int cols - js ! 2), of_int (js ! 3)),
       (of_int (js ! 4), of_int (int rows - js ! 5)),
       (of_int (int cols - js ! 6), of_int (int rows - js ! 7))])"

definition distortion :: "cv2 \<Rightarrow> image \<Rightarrow> rng \<Rightarrow> image result" where
  "distortion lib img g =
     (case shape img of (rows, cols, d) \<Rightarrow>
        and_then (jitters 8 g) (\<lambda>(js, g').
        case distortion_points rows cols js of (pts1, pts2) \<Rightarrow>
        and_then (warpPerspective lib img (cv2_getPerspectiveTransform lib pts1 pts2) (cols, rows))
          (\<lambda>distorted_img. Inr (slice2 distorted_img 50 150 50 150, g'))))"

text \<open>
  \<^verbatim>\<open>cv2.blur(src, ksize)\<close>, the normalised box filter: it refuses a source without
  samples (\<^verbatim>\<open>!_src.empty()\<close>) and returns an array of the shape of its source.
\<close>

definition cv2_blur :: "cv2 \<Rightarrow> image \<Rightarrow> nat \<times> nat \<Rightarrow> error + image" where
  "cv2_blur lib src ksize =
     (if rows_of src * cols_of src * dim_of src = 0 then Inl Cv2Error
      else Inr (map (\<lambda>y. map (\<lambda>x. map (cv2_blur_at lib src ksize x y) [0..<dim_of src])
             [0..<cols_of src]) [0..<rows_of src]))"

text \<open>\<^verbatim>\<open>cv2.resize\<close> refuses an empty source (\<^verbatim>\<open>!ssize.empty()\<close>).\<close>

definition cv2_resize :: "cv2 \<Rightarrow> image \<Rightarrow> nat \<times> nat \<Rightarrow> error + image" where
  "cv2_resize lib src dsize =
     (case dsize of (w, h) \<Rightarrow>
        if rows_of src = 0 \<or> cols_of src = 0 then Inl Cv2Error
        else Inr (map (\<lambda>y. map (\<lambda>x. map (cv2_resize_at lib src dsize x y) [0..<dim_of src])
               [0..<w]) [0..<h]))"

definition blur :: "cv2 \<Rightarrow> image \<Rightarrow> rng \<Rightarrow> image result" where
  "blur lib img g =
     and_then (cv2_blur lib img (5, 5)) (\<lambda>blurred_img. Inr (blurred_img, g))"

text \<open>
  The sample \<open>contrast\<close> computes from a sample \<open>a\<close>: \<^verbatim>\<open>addWeighted\<close> with the weights 2
  and 0, the second source all zeros, and the offset -50.
\<close>

definition contrast_sample :: "sample \<Rightarrow> sample" where
  "contrast_sample a = saturate_cast_uchar (uint a * 2 + uint (0 :: sample) * 0 + (- 50))"

definition contrast :: "cv2 \<Rightarrow> image \<Rightarrow> rng \<Rightarrow> image result" where
  "contrast lib img g = Inr (addWeighted img 2 (np_zeros (shape img)) 0 (- 50), g)"


section \<open>The file system\<close>

text \<open>
  Both scripts read and write one file system. It is modelled as a table that lists
  every path below the working directory, each with what it names: a regular file with
  its contents, or a directory. A path is the list of its components, the empty path is
  the working directory itself, and the first entry of a path is the one that counts.
  The order of the table is the order in which the system lists entries; a new entry
  goes to the end. Paths are relative to the working directory and without \<^verbatim>\<open>..\<close>, and
  there are no symbolic links.
\<close>

datatype 'c inode = Regular 'c | Folder

type_synonym path = "string list"

text \<open>
  For the augmentation script the contents of a file is what \<^verbatim>\<open>cv2.imread\<close> returns for
  it: the decoded image, or \<open>None\<close> when the file cannot be decoded.
\<close>

type_synonym disk = "(path \<times> image option inode) list"

definition node_at :: "(path \<times> 'c inode) list \<Rightarrow> path \<Rightarrow> 'c inode option" where
  "node_at fs p = (if p = [] then Some Folder else map_of fs p)"

definition isdir :: "(path \<times> 'c inode) list \<Rightarrow> path \<Rightarrow> bool" where
  "isdir fs p \<longleftrightarrow> (case node_at fs p of Some Folder \<Rightarrow> True | other \<Rightarrow> False)"

definition isfile :: "(path \<times> 'c inode) list \<Rightarrow> path \<Rightarrow> bool" where
  "isfile fs p \<longleftrightarrow> (case node_at fs p of Some (Regular c) \<Rightarrow> True | other \<Rightarrow> False)"

text \<open>The paths one component below \<open>p\<close>, in the order of the table.\<close>

definition children :: "(path \<times> 'c inode) list \<Rightarrow> path \<Rightarrow> path list" where
  "children fs p = filter (\<lambda>q. q \<noteq> [] \<and> butlast q = p) (map fst fs)"

text \<open>\<^verbatim>\<open>Path.iterdir()\<close>, consumed to its end.\<close>

definition iterdir :: "(path \<times> 'c inode) list \<Rightarrow> path \<Rightarrow> error + path list" where
  "iterdir fs p =
     (case node_at fs p of
        None \<Rightarrow> Inl FileNotFoundError
      | Some (Regular c) \<Rightarrow> Inl NotADirectoryError
      | Some Folder \<Rightarrow> Inr (children fs p))"

text \<open>
  A table is a file system when the parent of every entry is listed too; it is then a
  directory in every table the scripts start from or produce.
\<close>

definition parents_listed :: "(path \<times> 'c inode) list \<Rightarrow> bool" where
  "parents_listed fs \<longleftrightarrow>
     list_all (\<lambda>q. q = [] \<or> butlast q = [] \<or> butlast q \<in> set (map fst fs)) (map fst fs)"

definition endswith :: "string \<Rightarrow> string \<Rightarrow> bool" where
  "endswith s suf \<longleftrightarrow> length suf \<le> length s \<and> drop (length s - length suf) s = suf"

text \<open>
  \<^verbatim>\<open>Path.stem\<close>: the name up to its last dot, unless that dot is the first or the last
  character.
\<close>

definition rfind :: "char \<Rightarrow> string \<Rightarrow> nat option" where
  "rfind c s =
     (let k = length (takeWhile (\<lambda>x. x \<noteq> c) (rev s))
      in if k = length s then None else Some (length s - 1 - k))"

definition stem :: "string \<Rightarrow> string" where
  "stem name =
     (case rfind (CHR ''.'') name of
        None \<Rightarrow> name
      | Some i \<Rightarrow> if 0 < i \<and> i < length name - 1 then take i name else name)"

text \<open>
  \<^verbatim>\<open>Path(p).glob('**/*.JPG')\<close>, consumed to its end: every path at any depth below \<open>p\<close>
  whose name ends in \<^verbatim>\<open>.JPG\<close> (the match is case-sensitive, and a directory of such a
  name matches too). The generator is taken to list the file system as it is when the
  loop over it starts.
\<close>

definition glob_JPG :: "(path \<times> 'c inode) list \<Rightarrow> path \<Rightarrow> path list" where
  "glob_JPG fs p =
     filter (\<lambda>q. length p < length q \<and> take (length p) q = p \<and> endswith (last q) ''.JPG'')
       (map fst fs)"

text \<open>
  \<^verbatim>\<open>image.parent.stem\<close> is the stem of the name of the directory the image is in; the
  name of the working directory, as \<^verbatim>\<open>Path('.')\<close>, is empty.
\<close>

definition parent_name :: "path \<Rightarrow> string" where
  "parent_name q = (if length q < 2 then [] else last (butlast q))"

definition augmented_directory :: path where
  "augmented_directory = [''data'', ''images'', ''augmented_directory'']"

text \<open>
  \<^verbatim>\<open>save_path = Path('data/images/augmented_directory/', image.parent.stem)\<close>: joining
  an empty name gives the output directory itself.
\<close>

definition class_directory :: "path \<Rightarrow> path" where
  "class_directory image_path =
     augmented_directory @
       (if stem (parent_name image_path) = [] then [] else [stem (parent_name image_path)])"

text \<open>\<^verbatim>\<open>cv2.imread\<close> returns \<open>None\<close> for a path that is not a file it can decode.\<close>

definition imread :: "disk \<Rightarrow> path \<Rightarrow> image option" where
  "imread fs p = (case node_at fs p of Some (Regular c) \<Rightarrow> c | other \<Rightarrow> None)"

text \<open>
  \<^verbatim>\<open>os.makedirs(p, exist_ok=True)\<close> makes every missing directory on the way to \<open>p\<close>,
  the nearest first. It raises \<^verbatim>\<open>FileExistsError\<close> when \<open>p\<close> is a regular file and
  \<^verbatim>\<open>NotADirectoryError\<close> when a path on the way to it is one.
\<close>

fun makedirs_from :: "path \<Rightarrow> path \<Rightarrow> (path \<times> 'c inode) list \<Rightarrow> error + (path \<times> 'c inode) list" where
  "makedirs_from base [] fs = Inr fs"
| "makedirs_from base (a # rest) fs =
     (case node_at fs (base @ [a]) of
        Some (Regular c) \<Rightarrow> Inl (if rest = [] then FileExistsError else NotADirectoryError)
      | Some Folder \<Rightarrow> makedirs_from (base @ [a]) rest fs
      | None \<Rightarrow> makedirs_from (base @ [a]) rest (AList.update (base @ [a]) Folder fs))"

definition makedirs :: "path \<Rightarrow> (path \<times> 'c inode) list \<Rightarrow> error + (path \<times> 'c inode) list" where
  "makedirs p fs = makedirs_from [] p fs"

text \<open>
  \<^verbatim>\<open>max(iterable, key=...)\<close>: the first element whose key is the largest;
  \<^verbatim>\<open>ValueError\<close> on an empty iterable.
\<close>

fun py_max_key :: "('a \<Rightarrow> nat) \<Rightarrow> 'a list \<Rightarrow> error + 'a" where
  "py_max_key key [] = Inl ValueError"
| "py_max_key key (x # xs) = Inr (foldl (\<lambda>b a. if key b < key a then a else b) x xs)"

text \<open>A function that can raise, applied to every element of a list in order.\<close>

fun map_raise :: "('a \<Rightarrow> error + 'b) \<Rightarrow> 'a list \<Rightarrow> error + 'b list" where
  "map_raise f [] = Inr []"
| "map_raise f (x # xs) =
     and_then (f x) (\<lambda>y. and_then (map_raise f xs) (\<lambda>ys. Inr (y # ys)))"

text \<open>
  Lines 267 to 272: the number of entries of the largest class directory of the output
  directory. \<^verbatim>\<open>max\<close> computes the key \<^verbatim>\<open>len(list(x.iterdir()))\<close> of every entry of the
  output directory, which raises on an entry that is not a directory.
\<close>

definition len_largest_directory :: "(path \<times> 'c inode) list \<Rightarrow> error + nat" where
  "len_largest_directory fs =
     and_then (iterdir fs augmented_directory) (\<lambda>dirs.
     and_then (map_raise (\<lambda>x. and_then (iterdir fs x) (\<lambda>entries. Inr (x, length entries))) dirs)
       (\<lambda>keyed.
     and_then (py_max_key snd keyed) (\<lambda>largest_directory.
     and_then (iterdir fs (fst largest_directory)) (\<lambda>entries. Inr (length entries)))))"

section \<open>The balancing driver\<close>

text \<open>
  The state of a run: the file system, the random generator and, for the statement of
  the balancing invariant, the list of the states the file system has gone through. An
  exception carries the state in which it was raised.
\<close>

record state =
  st_fs :: disk
  st_rng :: rng
  st_trace :: "disk list"

type_synonym run = "(error \<times> state) + state"

definition set_fs :: "disk \<Rightarrow> state \<Rightarrow> state" where
  "set_fs fs s = s\<lparr>st_fs := fs, st_trace := st_trace s @ [fs]\<rparr>"

definition raising :: "state \<Rightarrow> error + 'a \<Rightarrow> (error \<times> state) + 'a" where
  "raising s m = (case m of Inl e \<Rightarrow> Inl (e, s) | Inr x \<Rightarrow> Inr x)"

fun for_each :: "('a \<Rightarrow> 's \<Rightarrow> 'e + 's) \<Rightarrow> 'a list \<Rightarrow> 's \<Rightarrow> 'e + 's" where
  "for_each f [] s = Inr s"
| "for_each f (x # xs) s = and_then (f x s) (for_each f xs)"

text \<open>
  What \<^verbatim>\<open>cv2.imread\<close> decodes from the file that \<^verbatim>\<open>plt.imsave\<close> writes from an array: an
  image of the height and width of the array, with three channels. Its samples are a
  parameter of the model (the file format loses information).
\<close>

definition saved :: "cv2 \<Rightarrow> image \<Rightarrow> image" where
  "saved lib arr =
     map (\<lambda>y. map (\<lambda>x. map (cv2_imread_at lib arr x y) [0..<3]) [0..<cols_of arr])
       [0..<rows_of arr]"

text \<open>
  \<^verbatim>\<open>plt.imsave(file, arr)\<close> raises when \<open>arr\<close> is \<open>None\<close> or an empty array, when the
  directory of \<open>file\<close> is not there and when \<open>file\<close> is a directory; otherwise it makes
  the file, or overwrites it.
\<close>

definition imsave :: "cv2 \<Rightarrow> path \<Rightarrow> image option \<Rightarrow> state \<Rightarrow> run" where
  "imsave lib file arr s =
     (case arr of
        None \<Rightarrow> Inl (ImsaveError, s)
      | Some img \<Rightarrow>
          if rows_of img = 0 \<or> cols_of img = 0 then Inl (ImsaveError, s)
          else (case node_at (st_fs s) (butlast file) of
                  None \<Rightarrow> Inl (FileNotFoundError, s)
                | Some (Regular c) \<Rightarrow> Inl (NotADirectoryError, s)
                | Some Folder \<Rightarrow>
                    if isdir (st_fs s) file then Inl (IsADirectoryError, s)
                    else Inr (set_fs (AList.update file (Regular (Some (saved lib img))) (st_fs s)) s)))"

text \<open>
  The eight names the driver passes to \<open>augment\<close>, with \<^verbatim>\<open>augmentation_type.title()\<close> and
  the method \<^verbatim>\<open>getattr(aug, augmentation_type)\<close>, called with the image alone: \<open>flip\<close>
  and \<open>shear\<close> take their default axis 0. On \<open>None\<close> the methods that read \<^verbatim>\<open>img.shape\<close>
  raise \<^verbatim>\<open>AttributeError\<close> and \<^verbatim>\<open>cv2.blur\<close> raises its own error.
\<close>

datatype augmentation_type = Flip | Rotate | Blur | Crop | Distortion | Shear | Skew | Contrast

fun title :: "augmentation_type \<Rightarrow> string" where
  "title Flip = ''Flip''"
| "title Rotate = ''Rotate''"
| "title Blur = ''Blur''"
| "title Crop = ''Crop''"
| "title Distortion = ''Distortion''"
| "title Shear = ''Shear''"
| "title Skew = ''Skew''"
| "title Contrast = ''Contrast''"

fun getattr :: "cv2 \<Rightarrow> augmentation_type \<Rightarrow> image \<Rightarrow> rng \<Rightarrow> image result" where
  "getattr lib Flip img g = flip lib img 0 g"
| "getattr lib Rotate img g = rotate lib img g"
| "getattr lib Blur img g = blur lib img g"
| "getattr lib Crop img g = crop lib img g"
| "getattr lib Distortion img g = distortion lib img g"
| "getattr lib Shear img g = shear lib img 0 g"
| "getattr lib Skew img g = skew lib img g"
| "getattr lib Contrast img g = contrast lib img g"

definition call_method :: "cv2 \<Rightarrow> augmentation_type \<Rightarrow> image option \<Rightarrow> rng \<Rightarrow> image result" where
  "call_method lib ty arr g =
     (case arr of
        None \<Rightarrow> Inl (if ty = Blur then Cv2Error else AttributeError)
      | Some img \<Rightarrow> getattr lib ty img g)"

text \<open>
  \<open>augment\<close> (lines 216 to 234): \<open>image_path\<close> is the path of the source file,
  \<open>save_path\<close> the class directory. The message of the first \<^verbatim>\<open>logger.debug\<close> is built
  whatever the logging level, and building it lists the class directory.
\<close>

definition augment ::
  "cv2 \<Rightarrow> path \<Rightarrow> path \<Rightarrow> nat \<Rightarrow> augmentation_type \<Rightarrow> state \<Rightarrow> run" where
  "augment lib image_path save_path len_largest ty s =
     and_then (raising s (iterdir (st_fs s) save_path)) (\<lambda>listed.
     and_then (raising s (call_method lib ty (imread (st_fs s) image_path) (st_rng s)))
       (\<lambda>(aug_img, g').
     and_then (raising s (cv2_resize lib aug_img (256, 256))) (\<lambda>resized.
       imsave lib (save_path @ [stem (last image_path) @ ''_'' @ title ty @ ''.JPG''])
         (Some resized) (s\<lparr>st_rng := g'\<rparr>))))"

text \<open>
  Lines 292 to 323: each of the eight steps is taken only while the class directory has
  fewer entries than the largest directory had.
\<close>

definition augmentation_order :: "augmentation_type list" where
  "augmentation_order = [Flip, Rotate, Blur, Crop, Distortion, Shear, Skew, Contrast]"

definition augment_if_below ::
  "cv2 \<Rightarrow> path \<Rightarrow> path \<Rightarrow> nat \<Rightarrow> augmentation_type \<Rightarrow> state \<Rightarrow> run" where
  "augment_if_below lib image_path save_path len_largest ty s =
     and_then (raising s (iterdir (st_fs s) save_path)) (\<lambda>listed.
       if length listed < len_largest
       then augment lib image_path save_path len_largest ty s
       else Inr s)"

text \<open>Lines 284 to 323, the body of the loop over the images of an entry.\<close>

definition balance_image :: "cv2 \<Rightarrow> nat \<Rightarrow> path \<Rightarrow> state \<Rightarrow> run" where
  "balance_image lib len_largest image_path s =
     (let img = imread (st_fs s) image_path;
          save_path = class_directory image_path
      in and_then (raising s (makedirs save_path (st_fs s))) (\<lambda>fs1.
         and_then (imsave lib (save_path @ [last image_path]) img (set_fs fs1 s))
           (for_each (augment_if_below lib image_path save_path len_largest) augmentation_order)))"

text \<open>
  Lines 277 to 323: the path given on the command line is listed again, after the
  copies, and every entry of it is searched for images when its turn comes.
\<close>

definition balance :: "cv2 \<Rightarrow> nat \<Rightarrow> path \<Rightarrow> state \<Rightarrow> run" where
  "balance lib len_largest arg s =
     and_then (raising s (iterdir (st_fs s) arg)) (\<lambda>entries.
       for_each
         (\<lambda>entry s'. for_each (balance_image lib len_largest) (glob_JPG (st_fs s') entry) s')
         entries s)"

text \<open>Lines 258 to 265, the loop that copies every image into its class directory.\<close>

definition copy_image :: "cv2 \<Rightarrow> path \<Rightarrow> state \<Rightarrow> run" where
  "copy_image lib image_path s =
     (let save_path = class_directory image_path
      in and_then (raising s (makedirs save_path (st_fs s))) (\<lambda>fs1.
           imsave lib (save_path @ [last image_path]) (imread fs1 image_path) (set_fs fs1 s)))"

definition copy_images :: "cv2 \<Rightarrow> path \<Rightarrow> state \<Rightarrow> run" where
  "copy_images lib arg s = for_each (copy_image lib) (glob_JPG (st_fs s) arg) s"

text \<open>Directory mode, lines 257 to 323.\<close>

definition directory_mode :: "cv2 \<Rightarrow> path \<Rightarrow> state \<Rightarrow> run" where
  "directory_mode lib arg s =
     and_then (copy_images lib arg s) (\<lambda>s1.
     and_then (raising s1 (len_largest_directory (st_fs s1))) (\<lambda>len_largest.
       balance lib len_largest arg s1))"

text \<open>
  The state in which a run ended, whether it ran to its end or raised, and the property
  the driver is to keep: no class directory, that is no entry of the output directory,
  has more than \<open>t\<close> entries.
\<close>

definition final :: "run \<Rightarrow> state" where
  "final r = (case r of Inl (e, s) \<Rightarrow> s | Inr s \<Rightarrow> s)"

definition within_target :: "nat \<Rightarrow> (path \<times> 'c inode) list \<Rightarrow> bool" where
  "within_target t fs =
     list_all (\<lambda>d. length (children fs d) \<le> t) (children fs augmented_directory)"

text \<open>
  A directory name that \<^verbatim>\<open>Path.stem\<close> shortens at most once, to a name that does not
  itself end in \<^verbatim>\<open>.JPG\<close>: such is every name without a dot. The class directory of an
  image in a directory of such a name is one level below the output directory, and an
  image of that class directory has the same class directory.
\<close>

definition plain_class :: "string \<Rightarrow> bool" where
  "plain_class c \<longleftrightarrow> c \<noteq> [] \<and> stem (stem c) = stem c \<and> \<not> endswith (stem c) ''.JPG''"

text \<open>
  The invariant of the balancing loop for the target \<open>t\<close> and the path \<open>arg\<close> given on
  the command line: the file system is within the target, and every image below \<open>arg\<close>
  is in a directory of a plain name and is already in its class directory.
\<close>

definition balanced_so_far :: "nat \<Rightarrow> path \<Rightarrow> (path \<times> 'c inode) list \<Rightarrow> bool" where
  "balanced_so_far t arg fs \<longleftrightarrow>
     within_target t fs \<and> parents_listed fs \<and>
     list_all (\<lambda>p. plain_class (parent_name p) \<and>
                   class_directory p @ [last p] \<in> set (map fst fs)) (glob_JPG fs arg)"

text \<open>
  The invariant of a run from the \<open>n\<close>-th state of its trace on: every state the file
  system has gone through since is within the target, the file system is balanced so
  far, and the paths \<open>listed\<close> for the loop under way are still there.
\<close>

definition balancing_invariant :: "nat \<Rightarrow> nat \<Rightarrow> path \<Rightarrow> path list \<Rightarrow> state \<Rightarrow> bool" where
  "balancing_invariant n t arg listed s \<longleftrightarrow>
     n \<le> length (st_trace s) \<and> list_all (within_target t) (drop n (st_trace s)) \<and>
     balanced_so_far t arg (st_fs s) \<and>
     list_all (\<lambda>q. q \<in> set (map fst (st_fs s))) listed"

section \<open>The entry point of the augmentation script\<close>

text \<open>
  Single-image mode, lines 325 to 345: the six transforms in order, each result written
  into the working directory under the stem of the file's name. The plot that follows
  is not modelled.
\<close>

definition single_image_mode :: "cv2 \<Rightarrow> path \<Rightarrow> state \<Rightarrow> run" where
  "single_image_mode lib arg s =
     (case imread (st_fs s) arg of
        None \<Rightarrow> Inl (AttributeError, s)
      | Some img \<Rightarrow>
          (let img_name = stem (last arg) in
           and_then (raising s (translation lib img (st_rng s))) (\<lambda>(translated_img, g1).
           and_then (imsave lib [img_name @ ''_Translation.JPG''] (Some translated_img)
                       (s\<lparr>st_rng := g1\<rparr>)) (\<lambda>s1.
           and_then (raising s1 (randint 0 2 (st_rng s1))) (\<lambda>(axis, g2).
           and_then (raising s1 (flip lib img axis g2)) (\<lambda>(flipped_img, g3).
           and_then (imsave lib [img_name @ ''_Flip.JPG''] (Some flipped_img)
                       (s1\<lparr>st_rng := g3\<rparr>)) (\<lambda>s2.
           and_then (raising s2 (rotate lib img (st_rng s2))) (\<lambda>(rotated_img, g4).
           and_then (imsave lib [img_name @ ''_Rotate.JPG''] (Some rotated_img)
                       (s2\<lparr>st_rng := g4\<rparr>)) (\<lambda>s3.
           and_then (raising s3 (blur lib img (st_rng s3))) (\<lambda>(blurred_img, g5).
           and_then (imsave lib [img_name @ ''_Blur.JPG''] (Some blurred_img)
                       (s3\<lparr>st_rng := g5\<rparr>)) (\<lambda>s4.
           and_then (raising s4 (crop lib img (st_rng s4))) (\<lambda>(cropped_img, g6).
           and_then (imsave lib [img_name @ ''_Crop.JPG''] (Some cropped_img)
                       (s4\<lparr>st_rng := g6\<rparr>)) (\<lambda>s5.
           and_then (raising s5 (contrast lib img (st_rng s5))) (\<lambda>(contrast_img, g7).
             imsave lib [img_name @ ''_Contrast.JPG''] (Some contrast_img)
               (s5\<lparr>st_rng := g7\<rparr>)))))))))))))))"

text \<open>
  The process ends with status 1 after \<^verbatim>\<open>sys.exit(1)\<close> and after an exception that
  nothing catches, and with status 0 when the script runs to its end.
  \<open>logged\<close> holds the messages passed to \<^verbatim>\<open>logger.error\<close>.
\<close>

record outcome =
  exit_status :: nat
  logged :: "string list"

text \<open>
  The script, lines 237 to 376, started in the file system \<open>fs\<close> with the path \<open>arg\<close>
  on its command line and the random generator in state \<open>g\<close>.
\<close>

definition main :: "cv2 \<Rightarrow> disk \<Rightarrow> path \<Rightarrow> rng \<Rightarrow> outcome" where
  "main lib fs arg g =
     (if \<not> isdir fs arg \<and> \<not> isfile fs arg
      then \<lparr>exit_status = 1, logged = [''Path not found.'']\<rparr>
      else if isdir fs arg
      then (case directory_mode lib arg \<lparr>st_fs = fs, st_rng = g, st_trace = []\<rparr> of
              Inl raised \<Rightarrow> \<lparr>exit_status = 1, logged = []\<rparr>
            | Inr finished \<Rightarrow> \<lparr>exit_status = 0, logged = []\<rparr>)
      else (case single_image_mode lib arg \<lparr>st_fs = fs, st_rng = g, st_trace = []\<rparr> of
              Inl raised \<Rightarrow> \<lparr>exit_status = 1, logged = []\<rparr>
            | Inr finished \<Rightarrow> \<lparr>exit_status = 0, logged = []\<rparr>))"

section \<open>The split script\<close>

text \<open>
  The files the script sees, as a list of paths relative to the working directory, each
  with what it names: a regular file with its contents, or a directory. A path is the
  list of its components; the first entry of a path is the one that counts. A directory
  lists the names of the paths one component below it.
\<close>

type_synonym filesystem = "(path \<times> string inode) list"

definition is_dir :: "filesystem \<Rightarrow> path \<Rightarrow> bool" where
  "is_dir fs p \<longleftrightarrow> map_of fs p = Some Folder"

definition fs_iterdir :: "filesystem \<Rightarrow> path \<Rightarrow> error + string list" where
  "fs_iterdir fs p =
     (case map_of fs p of
        None \<Rightarrow> Inl FileNotFoundError
      | Some (Regular c) \<Rightarrow> Inl NotADirectoryError
      | Some Folder \<Rightarrow>
          Inr (map (\<lambda>x. last (fst x)) (filter (\<lambda>x. fst x \<noteq> [] \<and> butlast (fst x) = p) fs)))"

text \<open>
  \<^verbatim>\<open>path.mkdir(parents=True, exist_ok=True)\<close>, for a path whose parent exists (the working
  directory, or a directory the script has just made).
\<close>

definition mkdir :: "filesystem \<Rightarrow> path \<Rightarrow> error + filesystem" where
  "mkdir fs p =
     (case map_of fs p of
        Some Folder \<Rightarrow> Inr fs
      | Some (Regular c) \<Rightarrow> Inl FileExistsError
      | None \<Rightarrow> Inr (AList.update p Folder fs))"

text \<open>
  \<^verbatim>\<open>shutil.copy(src, dst)\<close>: into \<open>dst\<close> when it is a directory, onto \<open>dst\<close> otherwise;
  the source stays where it is.
\<close>

definition copy :: "filesystem \<Rightarrow> path \<Rightarrow> path \<Rightarrow> error + filesystem" where
  "copy fs src dst =
     (let target = (if is_dir fs dst then dst @ [last src] else dst)
      in case map_of fs src of
           None \<Rightarrow> Inl FileNotFoundError
         | Some Folder \<Rightarrow> Inl IsADirectoryError
         | Some (Regular c) \<Rightarrow>
             if target = src then Inl SameFileError
             else if is_dir fs target then Inl IsADirectoryError
             else if \<not> is_dir fs (butlast target) then Inl FileNotFoundError
             else Inr (AList.update target (Regular c) fs))"

text \<open>
  The pattern \<^verbatim>\<open>image (*).JPG\<close> of \<^verbatim>\<open>subdir.glob\<close>: the name starts with \<^verbatim>\<open>image (\<close>,
  ends with \<^verbatim>\<open>).JPG\<close>, and has anything between the two (the match is case-sensitive).
\<close>

definition matches_glob :: "string \<Rightarrow> bool" where
  "matches_glob name \<longleftrightarrow>
     12 \<le> length name \<and> take 7 name = ''image ('' \<and> drop (length name - 5) name = '').JPG''"

text \<open>
  The sort key \<^verbatim>\<open>int(x.stem.split(" ")[1].strip("()"))\<close>. \<^verbatim>\<open>str.split(" ")\<close> cuts at
  every single space; \<^verbatim>\<open>str.strip("()")\<close> drops the parentheses at both ends;
  \<^verbatim>\<open>int\<close> accepts, between optional white space, an optional sign and decimal digits
  that single underscores may separate, and raises \<^verbatim>\<open>ValueError\<close> on anything else.
  Names are strings of ASCII characters.
\<close>

fun split_on :: "char \<Rightarrow> string \<Rightarrow> string list" where
  "split_on c [] = [[]]"
| "split_on c (x # xs) =
     (if x = c then [] # split_on c xs
      else (case split_on c xs of w # ws \<Rightarrow> (x # w) # ws | [] \<Rightarrow> [[x]]))"

definition strip :: "(char \<Rightarrow> bool) \<Rightarrow> string \<Rightarrow> string" where
  "strip P s = rev (dropWhile P (rev (dropWhile P s)))"

definition is_space :: "char \<Rightarrow> bool" where
  "is_space c \<longleftrightarrow> (let n = (of_char c :: nat) in (9 \<le> n \<and> n \<le> 13) \<or> (28 \<le> n \<and> n \<le> 32))"

definition is_digit :: "char \<Rightarrow> bool" where
  "is_digit c \<longleftrightarrow> (let n = (of_char c :: nat) in 48 \<le> n \<and> n \<le> 57)"

fun parse_digits :: "bool \<Rightarrow> int \<Rightarrow> string \<Rightarrow> int option" where
  "parse_digits after_digit acc [] = (if after_digit then Some acc else None)"
| "parse_digits after_digit acc (c # cs) =
     (if is_digit c then parse_digits True (10 * acc + (of_char c - 48)) cs
      else if c = CHR ''_'' \<and> after_digit then parse_digits False acc cs
      else None)"

definition py_int :: "string \<Rightarrow> error + int" where
  "py_int s =
     (case strip is_space s of
        [] \<Rightarrow> Inl ValueError
      | c # cs \<Rightarrow>
          (case (if c = CHR ''-'' then parse_digits False 0 cs
                 else if c = CHR ''+'' then parse_digits False 0 cs
                 else parse_digits False 0 (c # cs)) of
             None \<Rightarrow> Inl ValueError
           | Some v \<Rightarrow> Inr (if c = CHR ''-'' then - v else v)))"

definition sort_key_of :: "string \<Rightarrow> error + int" where
  "sort_key_of name =
     (case split_on (CHR '' '') (stem name) of
        a # b # rest \<Rightarrow> py_int (strip (\<lambda>c. c = CHR ''('' \<or> c = CHR '')'') b)
      | other \<Rightarrow> Inl IndexError)"

text \<open>
  \<^verbatim>\<open>sorted(names, key=...)\<close> computes the key of every name, in order, and then sorts;
  the sort is stable.
\<close>

definition sorted_by_key :: "string list \<Rightarrow> error + string list" where
  "sorted_by_key names =
     and_then (map_raise sort_key_of names) (\<lambda>keys.
       Inr (map snd (sort_key fst (zip keys names))))"

text \<open>Lines 19 to 22: the images of the class directory \<open>name\<close>, in the order of their keys.\<close>

definition selected_images :: "filesystem \<Rightarrow> string \<Rightarrow> error + string list" where
  "selected_images fs name =
     and_then (fs_iterdir fs [''images'', name]) (\<lambda>listing.
       sorted_by_key (filter matches_glob listing))"

text \<open>
  The state of the script is the file system and, for the statement of what has been
  copied where, the list of the calls of \<^verbatim>\<open>shutil.copy\<close> that have returned, each with
  its source and its destination.
\<close>

type_synonym copies = "(path \<times> path) list"

definition copy_to :: "path \<Rightarrow> path \<Rightarrow> string \<Rightarrow> filesystem \<times> copies \<Rightarrow> error + filesystem \<times> copies" where
  "copy_to from_dir to_dir img st =
     (case st of (fs, done_copies) \<Rightarrow>
        and_then (copy fs (from_dir @ [img]) (to_dir @ [img])) (\<lambda>fs'.
          Inr (fs', done_copies @ [(from_dir @ [img], to_dir @ [img])])))"

text \<open>Lines 12 to 28, the body of the loop over the entries of \<^verbatim>\<open>images\<close>.\<close>

definition split_subdir :: "string \<Rightarrow> filesystem \<times> copies \<Rightarrow> error + filesystem \<times> copies" where
  "split_subdir name st =
     (case st of (fs, done_copies) \<Rightarrow>
        if is_dir fs [''images'', name] then
          and_then (mkdir fs [''training'', name]) (\<lambda>fs1.
          and_then (mkdir fs1 [''validation'', name]) (\<lambda>fs2.
          and_then (selected_images fs2 name) (\<lambda>images.
          and_then (for_each (copy_to [''images'', name] [''training'', name]) (drop 25 images)
                      (fs2, done_copies))
            (for_each (copy_to [''images'', name] [''validation'', name]) (take 25 images)))))
        else Inr (fs, done_copies))"

text \<open>The script, lines 4 to 28.\<close>

definition split_dataset :: "filesystem \<Rightarrow> error + filesystem \<times> copies" where
  "split_dataset fs =
     and_then (mkdir fs [''training'']) (\<lambda>fs1.
     and_then (mkdir fs1 [''validation'']) (\<lambda>fs2.
     and_then (fs_iterdir fs2 [''images'']) (\<lambda>subdirs.
       for_each split_subdir subdirs (fs2, []))))"

text \<open>
  The entries of the file system below the top-level directory \<open>base\<close>: what has to stay
  as it is for the files of \<open>base\<close> to remain in place.
\<close>

definition under :: "string \<Rightarrow> filesystem \<Rightarrow> filesystem" where
  "under base fs = filter (\<lambda>x. fst x \<noteq> [] \<and> hd (fst x) = base) fs"

text \<open>
  The pattern as the specification words it: \<^verbatim>\<open>image (N).JPG\<close> with \<open>N\<close> a non-empty
  string of decimal digits.
\<close>

definition is_image_N :: "string \<Rightarrow> bool" where
  "is_image_N name \<longleftrightarrow>
     matches_glob name \<and> 12 < length name \<and>
     list_all is_digit (take (length name - 12) (drop 7 name))"


section \<open>Properties of the contrast transform\<close>

lemma map2_replicate:
  "length xs = n \<Longrightarrow> map2 f xs (replicate n z) = map (\<lambda>a. f a z) xs"
  by (induction xs arbitrary: n) auto

lemma shape_of_has_shape:
  assumes "has_shape img h w d" "0 < h" "0 < w"
  shows "shape img = (h, w, d)"
  using assms
  by (auto simp: has_shape_def shape_def rows_of_def cols_of_def dim_of_def split: list.splits)

lemma has_shape_rows:
  assumes "has_shape img h w d"
  shows "length img = h"
    and "\<And>r. r \<in> set img \<Longrightarrow> length r = w"
    and "\<And>r p. r \<in> set img \<Longrightarrow> p \<in> set r \<Longrightarrow> length p = d"
  using assms by (auto simp: has_shape_def list_all_iff)

lemma uint_saturate_cast_uchar:
  "uint (saturate_cast_uchar v) = max 0 (min 255 v)"
  by (auto simp: saturate_cast_uchar_def uint_word_of_int take_bit_int_eq_self)

lemma addWeighted_zeros:
  assumes "has_shape img h w d"
  shows "addWeighted img 2 (np_zeros (shape img)) 0 (- 50) = map (map (map contrast_sample)) img"
proof (cases "0 < h \<and> 0 < w")
  case True
  then have sh: "shape img = (h, w, d)"
    using assms shape_of_has_shape by blast
  show ?thesis
    unfolding addWeighted_def sh np_zeros_def
    by (simp add: map2_replicate has_shape_rows [OF assms] contrast_sample_def cong: map_cong)
next
  case False
  then consider "h = 0" | "0 < h" "w = 0" by auto
  then show ?thesis
  proof cases
    case 1
    then show ?thesis using assms
      by (simp add: has_shape_def addWeighted_def)
  next
    case 2
    have "img = replicate h []"
      using has_shape_rows(1,2) [OF assms] 2 by (metis length_0_conv replicate_eqI)
    then show ?thesis
      using 2 by (cases h)
        (auto simp: addWeighted_def np_zeros_def shape_def rows_of_def cols_of_def dim_of_def
           map2_replicate)
  qed
qed

text \<open>
  C3. On an image of shape \<open>(h, w, d)\<close> the contrast transform returns an image of the
  same shape without drawing a random number, and every output sample is
  \<open>2 * input - 50\<close> clamped to the range 0 to 255: it saturates, it never wraps modulo
  256.
\<close>

theorem contrast_saturates:
  assumes "has_shape img h w d"
  shows "\<exists>out. contrast lib img g = Inr (out, g) \<and> has_shape out h w d \<and>
     (\<forall>y<h. \<forall>x<w. \<forall>c<d.
        uint (out ! y ! x ! c) = max 0 (min 255 (2 * uint (img ! y ! x ! c) - 50)) \<and>
        0 \<le> uint (out ! y ! x ! c) \<and> uint (out ! y ! x ! c) \<le> 255)"
proof -
  let ?out = "map (map (map contrast_sample)) img"
  note sh = has_shape_rows [OF assms]
  have c: "contrast lib img g = Inr (?out, g)"
    by (simp add: contrast_def addWeighted_zeros [OF assms])
  have s: "has_shape ?out h w d"
    using assms by (auto simp: has_shape_def list_all_iff)
  have v: "uint (?out ! y ! x ! c) = max 0 (min 255 (2 * uint (img ! y ! x ! c) - 50))"
    if "y < h" "x < w" "c < d" for y x c
  proof -
    have r: "img ! y \<in> set img" using that sh(1) by simp
    then have lx: "x < length (img ! y)" using sh(2) that by simp
    then have "img ! y ! x \<in> set (img ! y)" by simp
    then have lc: "c < length (img ! y ! x)" using sh(3) r that by simp
    show ?thesis
      using that sh(1) lx lc
      by (simp add: contrast_sample_def uint_saturate_cast_uchar mult.commute)
  qed
  have b: "0 \<le> uint (?out ! y ! x ! c) \<and> uint (?out ! y ! x ! c) \<le> 255" for y x c
    using uint_lt2p [of "?out ! y ! x ! c"] by simp
  show ?thesis using c s v b by blast
qed

theorem contrast_saturates_witness:
  "has_shape [[[0, 100, 200]]] 1 1 3 \<and>
   (\<forall>lib g. \<exists>out. contrast lib [[[0, 100, 200]]] g = Inr (out, g) \<and>
      uint (out ! 0 ! 0 ! 0) = 0 \<and> uint (out ! 0 ! 0 ! 1) = 150 \<and> uint (out ! 0 ! 0 ! 2) = 255)"
proof (intro conjI allI)
  show h: "has_shape [[[0, 100, 200]]] 1 1 3"
    by (simp add: has_shape_def)
  fix lib :: cv2 and g :: rng
  from contrast_saturates [OF h, of lib g] obtain out where
    c: "contrast lib [[[0, 100, 200]]] g = Inr (out, g)" and
    v: "\<forall>y<1. \<forall>x<1. \<forall>c<3.
          uint (out ! y ! x ! c) =
            max 0 (min 255 (2 * uint ([[[0, 100, 200 :: sample]]] ! y ! x ! c) - 50)) \<and>
          0 \<le> uint (out ! y ! x ! c) \<and> uint (out ! y ! x ! c) \<le> 255"
    by (elim exE conjE) 
  have v0: "uint (out ! 0 ! 0 ! 0) = 0"
    using v [rule_format, of 0 0 0] by simp
  have v1: "uint (out ! 0 ! 0 ! 1) = 150"
    using v [rule_format, of 0 0 1] by simp
  have v2: "uint (out ! 0 ! 0 ! 2) = 255"
    using v [rule_format, of 0 0 2] by simp
  show "\<exists>out. contrast lib [[[0, 100, 200]]] g = Inr (out, g) \<and>
      uint (out ! 0 ! 0 ! 0) = 0 \<and> uint (out ! 0 ! 0 ! 1) = 150 \<and> uint (out ! 0 ! 0 ! 2) = 255"
    using c v0 v1 v2 by (intro exI [of _ out] conjI)
qed

section \<open>Random draws\<close>

lemma randint_range:
  assumes "low < high"
  shows "\<exists>v. randint low high g = Inr (v, rng_tail g) \<and> low \<le> v \<and> v < high"
proof -
  have "g 0 mod nat (high - low) < nat (high - low)"
    using assms by simp
  then have "low + int (g 0 mod nat (high - low)) < high"
    using assms by linarith
  then show ?thesis
    using assms by (simp add: randint_def)
qed

lemma randint_draws:
  assumes "low \<le> v" "v < high" "g 0 = nat (v - low)"
  shows "randint low high g = Inr (v, rng_tail g)"
  using assms by (simp add: randint_def)

lemma translation_range_nonempty: "(- 100 :: int) < 100"
  by simp

text \<open>
  C7, as stated: every value of the closed interval from -100 to 100 is a possible
  shift. It is not: no draw gives the shift 100, since \<^verbatim>\<open>np.random.randint(-100, 100)\<close>
  leaves its upper bound out.
\<close>

theorem translation_shift_100_impossible:
  "\<not> (\<forall>v \<in> {- 100 .. 100 :: int}. \<exists>g M g'. translation_matrix g = Inr (M, g') \<and> x_shift M = of_int v)"
proof
  assume a: "\<forall>v \<in> {- 100 .. 100 :: int}. \<exists>g M g'. translation_matrix g = Inr (M, g') \<and> x_shift M = of_int v"
  have "(100 :: int) \<in> {- 100 .. 100}" by simp
  with a have "\<exists>g M g'. translation_matrix g = Inr (M, g') \<and> x_shift M = of_int 100"
    by (rule bspec)
  then obtain g M g' where m: "translation_matrix g = Inr (M, g')" and x: "x_shift M = of_int 100"
    by (elim exE conjE)
  obtain tx where t: "randint (- 100) 100 g = Inr (tx, rng_tail g)" and b: "tx < 100"
    using randint_range [OF translation_range_nonempty, of g] by blast
  obtain ty where u: "randint (- 100) 100 (rng_tail g) = Inr (ty, rng_tail (rng_tail g))"
    using randint_range [OF translation_range_nonempty, of "rng_tail g"] by blast
  have "M = ((1, 0, of_int tx), (0, 1, of_int ty), (0, 0, 1))"
    using m t u by (simp add: translation_matrix_def and_then_def)
  then have "(of_int tx :: rat) = of_int 100"
    using x by (simp add: x_shift_def)
  then have "tx = 100" by (simp only: of_int_eq_iff)
  then show False using b by simp
qed

text \<open>
  C7, amended. For every state of the generator the translation matrix is the identity
  with two integer shifts, each from -100 to 99, and every pair of shifts in that range
  is drawn from some state of the generator.
\<close>

theorem translation_shifts:
  "(\<exists>tx ty g'. translation_matrix g = Inr (((1, 0, of_int tx), (0, 1, of_int ty), (0, 0, 1)), g')
      \<and> - 100 \<le> tx \<and> tx \<le> 99 \<and> - 100 \<le> ty \<and> ty \<le> 99) \<and>
   (- 100 \<le> a \<and> a \<le> 99 \<and> - 100 \<le> b \<and> b \<le> 99 \<longrightarrow>
      (\<exists>g0 g'. translation_matrix g0 = Inr (((1, 0, of_int a), (0, 1, of_int b), (0, 0, 1)), g')))"
proof (intro conjI impI)
  obtain tx where t: "randint (- 100) 100 g = Inr (tx, rng_tail g)" and tb: "- 100 \<le> tx" "tx < 100"
    using randint_range [OF translation_range_nonempty, of g] by blast
  obtain ty where u: "randint (- 100) 100 (rng_tail g) = Inr (ty, rng_tail (rng_tail g))"
    and ub: "- 100 \<le> ty" "ty < 100"
    using randint_range [OF translation_range_nonempty, of "rng_tail g"] by blast
  have "translation_matrix g =
      Inr (((1, 0, of_int tx), (0, 1, of_int ty), (0, 0, 1)), rng_tail (rng_tail g))"
    using t u by (simp add: translation_matrix_def and_then_def)
  then show "\<exists>tx ty g'. translation_matrix g = Inr (((1, 0, of_int tx), (0, 1, of_int ty), (0, 0, 1)), g')
      \<and> - 100 \<le> tx \<and> tx \<le> 99 \<and> - 100 \<le> ty \<and> ty \<le> 99"
    using tb ub by (intro exI [of _ tx] exI [of _ ty] exI [of _ "rng_tail (rng_tail g)"]) simp
next
  assume r: "- 100 \<le> a \<and> a \<le> 99 \<and> - 100 \<le> b \<and> b \<le> 99"
  define g0 :: rng where "g0 = (\<lambda>n. if n = 0 then nat (a + 100) else nat (b + 100))"
  have t: "randint (- 100) 100 g0 = Inr (a, rng_tail g0)"
    using r by (intro randint_draws) (simp_all add: g0_def)
  have u: "randint (- 100) 100 (rng_tail g0) = Inr (b, rng_tail (rng_tail g0))"
    using r by (intro randint_draws) (simp_all add: g0_def rng_tail_def)
  have "translation_matrix g0 =
      Inr (((1, 0, of_int a), (0, 1, of_int b), (0, 0, 1)), rng_tail (rng_tail g0))"
    using t u by (simp add: translation_matrix_def and_then_def)
  then show "\<exists>g0 g'. translation_matrix g0 = Inr (((1, 0, of_int a), (0, 1, of_int b), (0, 0, 1)), g')"
    by (intro exI)
qed

theorem translation_shifts_witness:
  "(- 100 \<le> (- 100 :: int) \<and> - 100 \<le> (99 :: int) \<and> (99 :: int) \<le> 99) \<and>
   (\<exists>g0 g'. translation_matrix g0 = Inr (((1, 0, - 100), (0, 1, 99), (0, 0, 1)), g'))"
  using translation_shifts [of "\<lambda>n. 0" "- 100" 99] by simp

section \<open>Shapes\<close>

lemma has_shape_replicate:
  "has_shape (replicate h (replicate w (replicate d v))) h w d"
  by (simp add: has_shape_def list_all_iff)

lemma rows_cols_of_has_shape:
  assumes "has_shape img h w d" "0 < h"
  shows "rows_of img = h" and "cols_of img = w"
  using assms by (auto simp: has_shape_def rows_of_def cols_of_def split: list.splits)

lemma slice2_has_shape:
  assumes "has_shape img h w d" "y0 + n \<le> h" "x0 + m \<le> w"
  shows "has_shape (slice2 img y0 (y0 + n) x0 (x0 + m)) n m d"
proof -
  note sh = has_shape_rows [OF assms(1)]
  have len: "length (slice2 img y0 (y0 + n) x0 (x0 + m)) = n"
    using sh(1) assms(2) by (simp add: slice2_def)
  have row: "length (take m (drop x0 r)) = m \<and> list_all (\<lambda>p. length p = d) (take m (drop x0 r))"
    if "r \<in> set (take n (drop y0 img))" for r
  proof -
    from that have r: "r \<in> set img"
      by (meson in_set_takeD in_set_dropD)
    then have "length r = w" by (rule sh(2))
    then have l: "length (take m (drop x0 r)) = m"
      using assms(3) by simp
    have "length p = d" if "p \<in> set (take m (drop x0 r))" for p
    proof -
      from that have "p \<in> set r" by (meson in_set_takeD in_set_dropD)
      with r show ?thesis by (rule sh(3))
    qed
    then show ?thesis using l by (simp add: list_all_iff)
  qed
  show ?thesis
    unfolding has_shape_def
  proof (intro conjI)
    show "length (slice2 img y0 (y0 + n) x0 (x0 + m)) = n" by (rule len)
    show "list_all (\<lambda>r. length r = m \<and> list_all (\<lambda>p. length p = d) r)
       (slice2 img y0 (y0 + n) x0 (x0 + m))"
      using row by (simp add: slice2_def list_all_iff)
  qed
qed

section \<open>Blur and contrast\<close>

lemma cv2_blur_shape:
  assumes "has_shape img h w d" "0 < h" "0 < w" "0 < d"
  shows "cv2_blur lib img k =
           Inr (map (\<lambda>y. map (\<lambda>x. map (cv2_blur_at lib img k x y) [0..<d]) [0..<w]) [0..<h])"
    and "has_shape (map (\<lambda>y. map (\<lambda>x. map (cv2_blur_at lib img k x y) [0..<d]) [0..<w]) [0..<h])
           h w d"
proof -
  have sh: "rows_of img = h" "cols_of img = w" "dim_of img = d"
    using shape_of_has_shape [OF assms(1-3)] by (simp_all add: shape_def)
  show "cv2_blur lib img k =
           Inr (map (\<lambda>y. map (\<lambda>x. map (cv2_blur_at lib img k x y) [0..<d]) [0..<w]) [0..<h])"
    using assms(2-4) by (simp add: cv2_blur_def sh)
  show "has_shape (map (\<lambda>y. map (\<lambda>x. map (cv2_blur_at lib img k x y) [0..<d]) [0..<w]) [0..<h])
           h w d"
    by (simp add: has_shape_def list_all_iff)
qed

lemma blur_succeeds:
  assumes "has_shape img h w d" "0 < h" "0 < w" "0 < d"
  shows "\<exists>out. blur lib img g = Inr (out, g) \<and> has_shape out h w d"
  using cv2_blur_shape [OF assms, of lib "(5, 5)"] by (simp add: blur_def and_then_def)

text \<open>
  C9. The blur and contrast transforms draw no random number. On an image with samples
  (every decoded image is one) each of them returns, for every state of the random
  generator, one and the same image and leaves the state as it found it, so that two
  calls on equal images return equal images whatever has been drawn between them. The
  image is the one the code asks for: the box filter of kernel 5 by 5 at every sample
  for \<open>blur\<close>, and \<open>2 * input - 50\<close> saturated at every sample for \<open>contrast\<close>.
\<close>

theorem blur_contrast_deterministic:
  assumes "has_shape img h w d" "0 < h" "0 < w" "0 < d"
  shows "\<exists>blurred contrasted.
     (\<forall>g1 g2. blur lib img g1 = Inr (blurred, g1) \<and> blur lib img g2 = Inr (blurred, g2) \<and>
        contrast lib img g1 = Inr (contrasted, g1) \<and> contrast lib img g2 = Inr (contrasted, g2)) \<and>
     has_shape blurred h w d \<and> has_shape contrasted h w d \<and>
     (\<forall>y<h. \<forall>x<w. \<forall>c<d.
        blurred ! y ! x ! c = cv2_blur_at lib img (5, 5) x y c \<and>
        contrasted ! y ! x ! c = contrast_sample (img ! y ! x ! c))"
proof -
  let ?b = "map (\<lambda>y. map (\<lambda>x. map (cv2_blur_at lib img (5, 5) x y) [0..<d]) [0..<w]) [0..<h]"
  let ?c = "map (map (map contrast_sample)) img"
  note sh = has_shape_rows [OF assms(1)]
  have b: "blur lib img g = Inr (?b, g)" for g
    using cv2_blur_shape(1) [OF assms, of lib "(5, 5)"] by (simp add: blur_def and_then_def)
  have c: "contrast lib img g = Inr (?c, g)" for g
    by (simp add: contrast_def addWeighted_zeros [OF assms(1)])
  have sb: "has_shape ?b h w d"
    by (rule cv2_blur_shape(2) [OF assms])
  have sc: "has_shape ?c h w d"
    using assms(1) by (auto simp: has_shape_def list_all_iff)
  have v: "?b ! y ! x ! k = cv2_blur_at lib img (5, 5) x y k \<and>
           ?c ! y ! x ! k = contrast_sample (img ! y ! x ! k)"
    if "y < h" "x < w" "k < d" for y x k
  proof -
    have r: "img ! y \<in> set img" using that sh(1) by simp
    then have lx: "x < length (img ! y)" using sh(2) that by simp
    then have "img ! y ! x \<in> set (img ! y)" by simp
    then have lc: "k < length (img ! y ! x)" using sh(3) r that by simp
    show ?thesis
      using that sh(1) lx lc by simp
  qed
  have runs: "\<forall>g1 g2. blur lib img g1 = Inr (?b, g1) \<and> blur lib img g2 = Inr (?b, g2) \<and>
        contrast lib img g1 = Inr (?c, g1) \<and> contrast lib img g2 = Inr (?c, g2)"
    using b c by (intro allI conjI)
  have vals: "\<forall>y<h. \<forall>x<w. \<forall>k<d.
        ?b ! y ! x ! k = cv2_blur_at lib img (5, 5) x y k \<and>
        ?c ! y ! x ! k = contrast_sample (img ! y ! x ! k)"
    using v by (intro allI impI)
  show ?thesis
    apply (rule exI [of _ ?b])
    apply (rule exI [of _ ?c])
    apply (intro conjI)
       apply (rule runs)
      apply (rule sb)
     apply (rule sc)
    apply (rule vals)
    done
qed

theorem blur_contrast_deterministic_witness:
  "has_shape [[[0, 100, 200]]] 1 1 3 \<and>
   (\<forall>lib. \<exists>blurred contrasted.
      (\<forall>g1 g2. blur lib [[[0, 100, 200]]] g1 = Inr (blurred, g1) \<and>
         blur lib [[[0, 100, 200]]] g2 = Inr (blurred, g2) \<and>
         contrast lib [[[0, 100, 200]]] g1 = Inr (contrasted, g1) \<and>
         contrast lib [[[0, 100, 200]]] g2 = Inr (contrasted, g2)))"
proof (intro conjI allI)
  show h: "has_shape [[[0, 100, 200]]] 1 1 3"
    by (simp add: has_shape_def)
  fix lib :: cv2
  have p: "0 < (1 :: nat)" "0 < (3 :: nat)" by simp_all
  from blur_contrast_deterministic [OF h p(1) p(1) p(2), of lib]
  show "\<exists>blurred contrasted.
      (\<forall>g1 g2. blur lib [[[0, 100, 200]]] g1 = Inr (blurred, g1) \<and>
         blur lib [[[0, 100, 200]]] g2 = Inr (blurred, g2) \<and>
         contrast lib [[[0, 100, 200]]] g1 = Inr (contrasted, g1) \<and>
         contrast lib [[[0, 100, 200]]] g2 = Inr (contrasted, g2))"
    by (elim exE conjE) (intro exI)
qed

section \<open>Crop\<close>

lemma crop_raises:
  assumes "has_shape img h w d" "h \<le> 100 \<or> w \<le> 100"
  shows "crop lib img g = Inl ValueError"
proof (cases "h = 0")
  case True
  then have "img = []" using assms(1) by (simp add: has_shape_def)
  then show ?thesis
    by (simp add: crop_def shape_def rows_of_def cols_of_def dim_of_def randint_def and_then_def)
next
  case False
  then have hw: "rows_of img = h" "cols_of img = w"
    using rows_cols_of_has_shape [OF assms(1)] by simp_all
  show ?thesis
  proof (cases "w \<le> 100")
    case True
    then show ?thesis
      by (simp add: crop_def shape_def hw randint_def and_then_def)
  next
    case False
    then have h: "h \<le> 100" using assms(2) by simp
    have "(0 :: int) < int w - 100" using False by simp
    from randint_range [OF this, of g] obtain x where
      x: "randint 0 (int w - 100) g = Inr (x, rng_tail g)" by blast
    have y: "randint 0 (int h - 100) (rng_tail g) = Inl ValueError"
      using h by (simp add: randint_def)
    show ?thesis
      using x y by (simp add: crop_def shape_def hw and_then_def)
  qed
qed

text \<open>
  C4, as stated: crop succeeds on every image of height and width at least 100. It does
  not: on an image of 100 by 100 pixels \<^verbatim>\<open>np.random.randint(0, cols - 100)\<close> is a draw
  from an empty range and raises \<^verbatim>\<open>ValueError\<close>, whatever the state of the generator.
\<close>

theorem crop_100_raises:
  "has_shape (replicate 100 (replicate 100 (replicate 3 0))) 100 100 3 \<and>
   (\<forall>lib g. crop lib (replicate 100 (replicate 100 (replicate 3 0))) g = Inl ValueError)"
proof (intro conjI allI)
  show h: "has_shape (replicate 100 (replicate 100 (replicate 3 0))) 100 100 3"
    by (rule has_shape_replicate)
  fix lib :: cv2 and g :: rng
  show "crop lib (replicate 100 (replicate 100 (replicate 3 0))) g = Inl ValueError"
    by (rule crop_raises [OF h]) simp
qed

text \<open>
  C4, amended. On an image of height and width at least 101 the crop transform succeeds
  for every state of the generator, and its result is the window of 100 rows and 100
  columns of the image at an origin \<open>(x, y)\<close> with \<open>x < width - 100\<close> and
  \<open>y < height - 100\<close>: an image of shape 100 by 100 with the channels of its input (3 for
  a decoded image). On an image whose height or width is at most 100 the draw of the
  origin raises \<^verbatim>\<open>ValueError\<close>, for every state of the generator.
\<close>

theorem crop_shape:
  assumes "has_shape img h w d"
  shows "(101 \<le> h \<and> 101 \<le> w \<longrightarrow>
           (\<exists>x y g'. x < w - 100 \<and> y < h - 100 \<and>
              crop lib img g = Inr (slice2 img y (y + 100) x (x + 100), g') \<and>
              has_shape (slice2 img y (y + 100) x (x + 100)) 100 100 d)) \<and>
         (h \<le> 100 \<or> w \<le> 100 \<longrightarrow> crop lib img g = Inl ValueError)"
proof (intro conjI impI)
  assume b: "101 \<le> h \<and> 101 \<le> w"
  have hw: "rows_of img = h" "cols_of img = w"
    using rows_cols_of_has_shape [OF assms(1)] b by simp_all
  have "(0 :: int) < int w - 100" using b by simp
  from randint_range [OF this, of g] obtain x where
    x: "randint 0 (int w - 100) g = Inr (x, rng_tail g)" and xb: "0 \<le> x" "x < int w - 100"
    by blast
  have "(0 :: int) < int h - 100" using b by simp
  from randint_range [OF this, of "rng_tail g"] obtain y where
    y: "randint 0 (int h - 100) (rng_tail g) = Inr (y, rng_tail (rng_tail g))"
    and yb: "0 \<le> y" "y < int h - 100"
    by blast
  have c: "crop lib img g =
      Inr (slice2 img (nat y) (nat y + 100) (nat x) (nat x + 100), rng_tail (rng_tail g))"
    using x y xb(1) yb(1) by (simp add: crop_def shape_def hw and_then_def nat_add_distrib)
  have s: "has_shape (slice2 img (nat y) (nat y + 100) (nat x) (nat x + 100)) 100 100 d"
    using xb yb by (intro slice2_has_shape [OF assms(1)]) simp_all
  have xn: "nat x < w - 100" using xb by linarith
  have yn: "nat y < h - 100" using yb by linarith
  show "\<exists>x y g'. x < w - 100 \<and> y < h - 100 \<and>
              crop lib img g = Inr (slice2 img y (y + 100) x (x + 100), g') \<and>
              has_shape (slice2 img y (y + 100) x (x + 100)) 100 100 d"
    using xn yn c s by (intro exI [of _ "nat x"] exI [of _ "nat y"] exI [of _ "rng_tail (rng_tail g)"] conjI)
next
  assume "h \<le> 100 \<or> w \<le> 100"
  with assms show "crop lib img g = Inl ValueError" by (rule crop_raises)
qed

theorem crop_shape_witness:
  "has_shape (replicate 101 (replicate 101 (replicate 3 0))) 101 101 3 \<and>
   has_shape (replicate 100 (replicate 200 (replicate 3 0))) 100 200 3 \<and>
   (\<forall>lib g. (\<exists>out g'. crop lib (replicate 101 (replicate 101 (replicate 3 0))) g = Inr (out, g')
      \<and> has_shape out 100 100 3) \<and>
      crop lib (replicate 100 (replicate 200 (replicate 3 0))) g = Inl ValueError)"
proof (intro conjI allI)
  show h: "has_shape (replicate 101 (replicate 101 (replicate 3 0))) 101 101 3"
    by (rule has_shape_replicate)
  show k: "has_shape (replicate 100 (replicate 200 (replicate 3 0))) 100 200 3"
    by (rule has_shape_replicate)
  fix lib :: cv2 and g :: rng
  have b: "(101 :: nat) \<le> 101 \<and> (101 :: nat) \<le> 101" by simp
  from crop_shape [OF h, of lib g, THEN conjunct1, rule_format, OF b]
  show "\<exists>out g'. crop lib (replicate 101 (replicate 101 (replicate 3 0))) g = Inr (out, g')
      \<and> has_shape out 100 100 3"
    by (elim exE conjE) (intro exI conjI)
  have c: "(100 :: nat) \<le> 100 \<or> (200 :: nat) \<le> 100" by simp
  from crop_shape [OF k, of lib g, THEN conjunct2, rule_format, OF c]
  show "crop lib (replicate 100 (replicate 200 (replicate 3 0))) g = Inl ValueError" .
qed

section \<open>Warps\<close>

lemma fetch_length:
  assumes "has_shape img h w d" "0 < h" "0 < w"
  shows "length (fetch img ix iy) = d"
proof (cases "0 \<le> ix \<and> ix < int (cols_of img) \<and> 0 \<le> iy \<and> iy < int (rows_of img)")
  case True
  note sh = has_shape_rows [OF assms(1)]
  have hw: "rows_of img = h" "cols_of img = w"
    using rows_cols_of_has_shape [OF assms(1,2)] by simp_all
  have "nat iy < length img"
    using True hw sh(1) by linarith
  then have r: "img ! nat iy \<in> set img"
    by (rule nth_mem)
  then have "length (img ! nat iy) = w"
    by (rule sh(2))
  then have "nat ix < length (img ! nat iy)"
    using True hw by linarith
  then have "img ! nat iy ! nat ix \<in> set (img ! nat iy)"
    by (rule nth_mem)
  with r have "length (img ! nat iy ! nat ix) = d"
    by (rule sh(3))
  moreover have "fetch img ix iy = img ! nat iy ! nat ix"
    unfolding fetch_def using True by (rule if_P)
  ultimately show ?thesis by simp
next
  case False
  then have "fetch img ix iy = replicate (dim_of img) 0"
    unfolding fetch_def by (rule if_not_P)
  moreover have "dim_of img = d"
    using shape_of_has_shape [OF assms] by (simp add: shape_def)
  ultimately show ?thesis by simp
qed

lemma warp_pixel_length:
  assumes "has_shape img h w d" "0 < h" "0 < w"
  shows "length (warp_pixel lib img N x y) = d"
  using fetch_length [OF assms] shape_of_has_shape [OF assms]
  by (simp add: warp_pixel_def shape_def split: prod.splits)

lemma warpPerspective_shape:
  assumes "has_shape img h w d" "0 < h" "0 < w" "0 < d"
  shows "\<exists>warped. warpPerspective lib img M (w', h') = Inr warped \<and> has_shape warped h' w' d"
proof -
  have "rows_of img * cols_of img * dim_of img \<noteq> 0"
    using shape_of_has_shape [OF assms(1-3)] assms(2-4) by (simp add: shape_def)
  then have "warpPerspective lib img M (w', h') =
      Inr (map (\<lambda>y. map (\<lambda>x. warp_pixel lib img (invert3 M) x y) [0..<w']) [0..<h'])"
    by (simp add: warpPerspective_def)
  moreover have "has_shape (map (\<lambda>y. map (\<lambda>x. warp_pixel lib img (invert3 M) x y) [0..<w']) [0..<h']) h' w' d"
    using warp_pixel_length [OF assms(1-3)] by (simp add: has_shape_def list_all_iff)
  ultimately show ?thesis by blast
qed

lemma warpAffine_shape:
  assumes "has_shape img h w d" "0 < h" "0 < w" "0 < d"
  shows "\<exists>warped. warpAffine lib img M (w', h') = Inr warped \<and> has_shape warped h' w' d"
  using warpPerspective_shape [OF assms] by (simp add: warpAffine_def split: prod.splits)

lemma jitters_succeeds: "\<exists>js g'. jitters n g = Inr (js, g')"
proof (induction n arbitrary: g)
  case 0
  then show ?case by simp
next
  case (Suc n)
  have "(0 :: int) < 30" by simp
  from randint_range [OF this, of g] obtain j where j: "randint 0 30 g = Inr (j, rng_tail g)"
    by blast
  from Suc [of "rng_tail g"] obtain js g' where "jitters n (rng_tail g) = Inr (js, g')"
    by blast
  with j show ?case by (simp add: and_then_def)
qed

lemma window_shape:
  assumes "has_shape warped h w d" "150 \<le> h" "150 \<le> w"
  shows "has_shape (slice2 warped 50 150 50 150) 100 100 d"
  using slice2_has_shape [OF assms(1), of 50 100 50 100] assms(2,3) by simp


lemma translation_matrix_succeeds: "\<exists>M g'. translation_matrix g = Inr (M, g')"
proof -
  from randint_range [OF translation_range_nonempty, of g] obtain tx where
    t: "randint (- 100) 100 g = Inr (tx, rng_tail g)" by blast
  from randint_range [OF translation_range_nonempty, of "rng_tail g"] obtain ty where
    u: "randint (- 100) 100 (rng_tail g) = Inr (ty, rng_tail (rng_tail g))" by blast
  show ?thesis using t u by (simp add: translation_matrix_def and_then_def)
qed

text \<open>
  C5. On an image of three channels whose height and width are at least 150, each of
  the translation, shear (along either axis), rotate, skew and distortion transforms
  succeeds for every state of the random generator. Its result is the window
  \<^verbatim>\<open>[50:150, 50:150]\<close> of the image that the geometric warp returns for the matrix of the
  transform (the translation or shear matrix drawn, the rotation matrix of the angle
  drawn, the affine or perspective map of the corners to the jittered corners drawn):
  the warped image has the shape of the input, and its window has shape 100 by 100 by 3.
\<close>

theorem geometric_transforms_shape:
  assumes "has_shape img h w 3" "150 \<le> h" "150 \<le> w"
  shows
    "(\<exists>M g' warped. translation_matrix g = Inr (M, g') \<and>
        warpPerspective lib img M (w, h) = Inr warped \<and> has_shape warped h w 3 \<and>
        translation lib img g = Inr (slice2 warped 50 150 50 150, g') \<and>
        has_shape (slice2 warped 50 150 50 150) 100 100 3) \<and>
     (\<exists>M g' warped. shear_matrix axis g = (M, g') \<and>
        warpPerspective lib img M (w, h) = Inr warped \<and> has_shape warped h w 3 \<and>
        shear lib img axis g = Inr (slice2 warped 50 150 50 150, g') \<and>
        has_shape (slice2 warped 50 150 50 150) 100 100 3) \<and>
     (\<exists>angle g' warped. randint (- 180) 180 g = Inr (angle, g') \<and>
        warpAffine lib img (cv2_getRotationMatrix2D lib (of_nat w / 2, of_nat h / 2) angle 1) (w, h)
          = Inr warped \<and> has_shape warped h w 3 \<and>
        rotate lib img g = Inr (slice2 warped 50 150 50 150, g') \<and>
        has_shape (slice2 warped 50 150 50 150) 100 100 3) \<and>
     (\<exists>js g' pts1 pts2 warped. jitters 6 g = Inr (js, g') \<and> skew_points h w js = (pts1, pts2) \<and>
        warpAffine lib img (cv2_getAffineTransform lib pts1 pts2) (w, h) = Inr warped \<and>
        has_shape warped h w 3 \<and>
        skew lib img g = Inr (slice2 warped 50 150 50 150, g') \<and>
        has_shape (slice2 warped 50 150 50 150) 100 100 3) \<and>
     (\<exists>js g' pts1 pts2 warped. jitters 8 g = Inr (js, g') \<and>
        distortion_points h w js = (pts1, pts2) \<and>
        warpPerspective lib img (cv2_getPerspectiveTransform lib pts1 pts2) (w, h) = Inr warped \<and>
        has_shape warped h w 3 \<and>
        distortion lib img g = Inr (slice2 warped 50 150 50 150, g') \<and>
        has_shape (slice2 warped 50 150 50 150) 100 100 3)"
proof -
  have pos: "0 < h" "0 < w" "0 < (3 :: nat)"
    using assms(2,3) by simp_all
  have sh: "shape img = (h, w, 3)"
    using shape_of_has_shape [OF assms(1) pos(1,2)] .
  note persp = warpPerspective_shape [OF assms(1) pos]
  note affine = warpAffine_shape [OF assms(1) pos]
  have win: "has_shape (slice2 warped 50 150 50 150) 100 100 3" if "has_shape warped h w 3" for warped
    using window_shape [OF that assms(2,3)] .
  have t: "\<exists>M g' warped. translation_matrix g = Inr (M, g') \<and>
        warpPerspective lib img M (w, h) = Inr warped \<and> has_shape warped h w 3 \<and>
        translation lib img g = Inr (slice2 warped 50 150 50 150, g') \<and>
        has_shape (slice2 warped 50 150 50 150) 100 100 3"
  proof -
    from translation_matrix_succeeds [of g] obtain M g' where
      m: "translation_matrix g = Inr (M, g')" by blast
    from persp [of lib M w h] obtain warped where
      wp: "warpPerspective lib img M (w, h) = Inr warped" and ws: "has_shape warped h w 3" by blast
    have "translation lib img g = Inr (slice2 warped 50 150 50 150, g')"
      using m wp by (simp add: translation_def sh and_then_def)
    with m wp ws win [OF ws] show ?thesis by (intro exI conjI)
  qed
  have s: "\<exists>M g' warped. shear_matrix axis g = (M, g') \<and>
        warpPerspective lib img M (w, h) = Inr warped \<and> has_shape warped h w 3 \<and>
        shear lib img axis g = Inr (slice2 warped 50 150 50 150, g') \<and>
        has_shape (slice2 warped 50 150 50 150) 100 100 3"
  proof -
    obtain M g' where m: "shear_matrix axis g = (M, g')" by (rule prod.exhaust)
    from persp [of lib M w h] obtain warped where
      wp: "warpPerspective lib img M (w, h) = Inr warped" and ws: "has_shape warped h w 3" by blast
    have "shear lib img axis g = Inr (slice2 warped 50 150 50 150, g')"
      using m wp by (simp add: shear_def sh and_then_def)
    with m wp ws win [OF ws] show ?thesis by (intro exI conjI)
  qed
  have r: "\<exists>angle g' warped. randint (- 180) 180 g = Inr (angle, g') \<and>
        warpAffine lib img (cv2_getRotationMatrix2D lib (of_nat w / 2, of_nat h / 2) angle 1) (w, h)
          = Inr warped \<and> has_shape warped h w 3 \<and>
        rotate lib img g = Inr (slice2 warped 50 150 50 150, g') \<and>
        has_shape (slice2 warped 50 150 50 150) 100 100 3"
  proof -
    have "(- 180 :: int) < 180" by simp
    from randint_range [OF this, of g] obtain angle where
      a: "randint (- 180) 180 g = Inr (angle, rng_tail g)" by blast
    from affine [of lib "cv2_getRotationMatrix2D lib (of_nat w / 2, of_nat h / 2) angle 1" w h]
    obtain warped where
      wp: "warpAffine lib img (cv2_getRotationMatrix2D lib (of_nat w / 2, of_nat h / 2) angle 1)
             (w, h) = Inr warped" and ws: "has_shape warped h w 3" by blast
    have "rotate lib img g = Inr (slice2 warped 50 150 50 150, rng_tail g)"
      using a wp by (simp add: rotate_def sh and_then_def)
    with a wp ws win [OF ws] show ?thesis by (intro exI conjI)
  qed
  have k: "\<exists>js g' pts1 pts2 warped. jitters 6 g = Inr (js, g') \<and> skew_points h w js = (pts1, pts2) \<and>
        warpAffine lib img (cv2_getAffineTransform lib pts1 pts2) (w, h) = Inr warped \<and>
        has_shape warped h w 3 \<and>
        skew lib img g = Inr (slice2 warped 50 150 50 150, g') \<and>
        has_shape (slice2 warped 50 150 50 150) 100 100 3"
  proof -
    from jitters_succeeds [of 6 g] obtain js g' where j: "jitters 6 g = Inr (js, g')" by blast
    obtain pts1 pts2 where p: "skew_points h w js = (pts1, pts2)" by (rule prod.exhaust)
    from affine [of lib "cv2_getAffineTransform lib pts1 pts2" w h] obtain warped where
      wp: "warpAffine lib img (cv2_getAffineTransform lib pts1 pts2) (w, h) = Inr warped"
      and ws: "has_shape warped h w 3" by blast
    have "skew lib img g = Inr (slice2 warped 50 150 50 150, g')"
      using j p wp by (simp add: skew_def sh and_then_def)
    with j p wp ws win [OF ws] show ?thesis by (intro exI conjI)
  qed
  have d: "\<exists>js g' pts1 pts2 warped. jitters 8 g = Inr (js, g') \<and>
        distortion_points h w js = (pts1, pts2) \<and>
        warpPerspective lib img (cv2_getPerspectiveTransform lib pts1 pts2) (w, h) = Inr warped \<and>
        has_shape warped h w 3 \<and>
        distortion lib img g = Inr (slice2 warped 50 150 50 150, g') \<and>
        has_shape (slice2 warped 50 150 50 150) 100 100 3"
  proof -
    from jitters_succeeds [of 8 g] obtain js g' where j: "jitters 8 g = Inr (js, g')" by blast
    obtain pts1 pts2 where p: "distortion_points h w js = (pts1, pts2)" by (rule prod.exhaust)
    from persp [of lib "cv2_getPerspectiveTransform lib pts1 pts2" w h] obtain warped where
      wp: "warpPerspective lib img (cv2_getPerspectiveTransform lib pts1 pts2) (w, h) = Inr warped"
      and ws: "has_shape warped h w 3" by blast
    have "distortion lib img g = Inr (slice2 warped 50 150 50 150, g')"
      using j p wp by (simp add: distortion_def sh and_then_def)
    with j p wp ws win [OF ws] show ?thesis by (intro exI conjI)
  qed
  from t s r k d show ?thesis by (intro conjI)
qed

theorem geometric_transforms_shape_witness:
  "has_shape (replicate 150 (replicate 150 (replicate 3 0))) 150 150 3 \<and>
   (\<forall>lib g. \<exists>angle g' warped. randint (- 180) 180 g = Inr (angle, g') \<and>
      warpAffine lib (replicate 150 (replicate 150 (replicate 3 0)))
        (cv2_getRotationMatrix2D lib (of_nat 150 / 2, of_nat 150 / 2) angle 1) (150, 150)
        = Inr warped \<and> has_shape warped 150 150 3 \<and>
      rotate lib (replicate 150 (replicate 150 (replicate 3 0))) g
        = Inr (slice2 warped 50 150 50 150, g') \<and>
      has_shape (slice2 warped 50 150 50 150) 100 100 3)"
proof (intro conjI allI)
  show h: "has_shape (replicate 150 (replicate 150 (replicate 3 0))) 150 150 3"
    by (rule has_shape_replicate)
  fix lib :: cv2 and g :: rng
  have le: "(150 :: nat) \<le> 150" by simp
  from geometric_transforms_shape [OF h le le, of g lib 0]
  show "\<exists>angle g' warped. randint (- 180) 180 g = Inr (angle, g') \<and>
      warpAffine lib (replicate 150 (replicate 150 (replicate 3 0)))
        (cv2_getRotationMatrix2D lib (of_nat 150 / 2, of_nat 150 / 2) angle 1) (150, 150)
        = Inr warped \<and> has_shape warped 150 150 3 \<and>
      rotate lib (replicate 150 (replicate 150 (replicate 3 0))) g
        = Inr (slice2 warped 50 150 50 150, g') \<and>
      has_shape (slice2 warped 50 150 50 150) 100 100 3"
    by (elim conjE)
qed

section \<open>Flip\<close>

lemmas flip_eval = flip_def shape_def rows_of_def cols_of_def dim_of_def warpPerspective_def
  and_then_def flip_matrix_def invert3_def det3_def warp_pixel_def source_position_def
  fetch_def upt_rec

text \<open>
  C2. Flipping twice along the same axis should return the original image. The matrix
  of \<open>flip\<close> maps column \<open>x\<close> to column \<open>cols - x\<close> (row \<open>y\<close> to row \<open>rows - y\<close> for the
  other axis), one more than the mirror image \<open>cols - 1 - x\<close>: the first column (row) of
  the result is the border value 0 and the first column (row) of the source is lost.
  On an image of one row and three columns, flipped along axis 0, and on an image of
  three rows and one column, flipped along axis 1, the second flip gives back the two
  pixels that survived the first, behind a black pixel, and not the original.
\<close>

theorem flip_twice_is_not_identity:
  "flip lib [[[1, 1, 1], [2, 2, 2], [3, 3, 3]]] 0 g
     = Inr ([[[0, 0, 0], [3, 3, 3], [2, 2, 2]]], g) \<and>
   flip lib [[[0, 0, 0], [3, 3, 3], [2, 2, 2]]] 0 g
     = Inr ([[[0, 0, 0], [2, 2, 2], [3, 3, 3]]], g) \<and>
   flip lib [[[1, 1, 1]], [[2, 2, 2]], [[3, 3, 3]]] 1 g
     = Inr ([[[0, 0, 0]], [[3, 3, 3]], [[2, 2, 2]]], g) \<and>
   flip lib [[[0, 0, 0]], [[3, 3, 3]], [[2, 2, 2]]] 1 g
     = Inr ([[[0, 0, 0]], [[2, 2, 2]], [[3, 3, 3]]], g)"
  by (simp add: flip_eval)

section \<open>The entry point\<close>

lemma nonempty_of_has_shape:
  assumes "has_shape a h w d" "0 < h" "0 < w"
  shows "\<not> (rows_of a = 0 \<or> cols_of a = 0)"
  using rows_cols_of_has_shape [OF assms(1,2)] assms(2,3) by simp

lemma translation_succeeds:
  assumes "has_shape img h w 3" "150 \<le> h" "150 \<le> w"
  shows "\<exists>out g'. translation lib img g = Inr (out, g') \<and> has_shape out 100 100 3"
proof -
  have pos: "0 < h" "0 < w" "0 < (3 :: nat)" using assms(2,3) by simp_all
  have sh: "shape img = (h, w, 3)" using shape_of_has_shape [OF assms(1) pos(1,2)] .
  from translation_matrix_succeeds [of g] obtain M g' where
    m: "translation_matrix g = Inr (M, g')" by blast
  from warpPerspective_shape [OF assms(1) pos, of lib M w h] obtain warped where
    wp: "warpPerspective lib img M (w, h) = Inr warped" and ws: "has_shape warped h w 3" by blast
  have "translation lib img g = Inr (slice2 warped 50 150 50 150, g')"
    using m wp by (simp add: translation_def sh and_then_def)
  with window_shape [OF ws assms(2,3)] show ?thesis by blast
qed

lemma rotate_succeeds:
  assumes "has_shape img h w 3" "150 \<le> h" "150 \<le> w"
  shows "\<exists>out g'. rotate lib img g = Inr (out, g') \<and> has_shape out 100 100 3"
proof -
  have pos: "0 < h" "0 < w" "0 < (3 :: nat)" using assms(2,3) by simp_all
  have sh: "shape img = (h, w, 3)" using shape_of_has_shape [OF assms(1) pos(1,2)] .
  have "(- 180 :: int) < 180" by simp
  from randint_range [OF this, of g] obtain angle where
    a: "randint (- 180) 180 g = Inr (angle, rng_tail g)" by blast
  from warpAffine_shape [OF assms(1) pos, of lib
      "cv2_getRotationMatrix2D lib (of_nat w / 2, of_nat h / 2) angle 1" w h]
  obtain warped where
    wp: "warpAffine lib img (cv2_getRotationMatrix2D lib (of_nat w / 2, of_nat h / 2) angle 1)
           (w, h) = Inr warped" and ws: "has_shape warped h w 3" by blast
  have "rotate lib img g = Inr (slice2 warped 50 150 50 150, rng_tail g)"
    using a wp by (simp add: rotate_def sh and_then_def)
  with window_shape [OF ws assms(2,3)] show ?thesis by blast
qed

lemma flip_succeeds:
  assumes "has_shape img h w 3" "0 < h" "0 < w"
  shows "\<exists>out. flip lib img axis g = Inr (out, g) \<and> has_shape out h w 3"
proof -
  have sh: "shape img = (h, w, 3)" using shape_of_has_shape [OF assms] .
  have "0 < (3 :: nat)" by simp
  from warpPerspective_shape [OF assms this, of lib "flip_matrix h w axis" w h] obtain warped where
    wp: "warpPerspective lib img (flip_matrix h w axis) (w, h) = Inr warped"
    and ws: "has_shape warped h w 3" by blast
  have "flip lib img axis g = Inr (warped, g)"
    using wp by (simp add: flip_def sh and_then_def)
  with ws show ?thesis by blast
qed

lemma crop_succeeds:
  assumes "has_shape img h w d" "101 \<le> h" "101 \<le> w"
  shows "\<exists>out g'. crop lib img g = Inr (out, g') \<and> has_shape out 100 100 d"
proof -
  have hw: "rows_of img = h" "cols_of img = w"
    using rows_cols_of_has_shape [OF assms(1)] assms(2) by simp_all
  have "(0 :: int) < int w - 100" using assms(3) by simp
  from randint_range [OF this, of g] obtain x where
    x: "randint 0 (int w - 100) g = Inr (x, rng_tail g)" and xb: "0 \<le> x" "x < int w - 100"
    by blast
  have "(0 :: int) < int h - 100" using assms(2) by simp
  from randint_range [OF this, of "rng_tail g"] obtain y where
    y: "randint 0 (int h - 100) (rng_tail g) = Inr (y, rng_tail (rng_tail g))"
    and yb: "0 \<le> y" "y < int h - 100"
    by blast
  have c: "crop lib img g =
      Inr (slice2 img (nat y) (nat y + 100) (nat x) (nat x + 100), rng_tail (rng_tail g))"
    using x y xb(1) yb(1) by (simp add: crop_def shape_def hw and_then_def nat_add_distrib)
  have "has_shape (slice2 img (nat y) (nat y + 100) (nat x) (nat x + 100)) 100 100 d"
    using xb yb by (intro slice2_has_shape [OF assms(1)]) simp_all
  with c show ?thesis by blast
qed

lemma contrast_succeeds:
  assumes "has_shape img h w d"
  shows "\<exists>out. contrast lib img g = Inr (out, g) \<and> has_shape out h w d"
proof -
  have "has_shape (map (map (map contrast_sample)) img) h w d"
    using assms by (auto simp: has_shape_def list_all_iff)
  then show ?thesis
    by (simp add: contrast_def addWeighted_zeros [OF assms])
qed


section \<open>The file system\<close>


lemma keys_update:
  "map fst (AList.update k v fs) =
     (if k \<in> set (map fst fs) then map fst fs else map fst fs @ [k])"
  by (induction fs) auto

lemma map_of_update_other: "q \<noteq> k \<Longrightarrow> map_of (AList.update k v fs) q = map_of fs q"
  by (simp add: update_conv')

lemma map_of_update_same: "map_of (AList.update k v fs) k = Some v"
  by (simp add: update_conv')

lemma map_of_in_keys: "map_of fs q = Some v \<Longrightarrow> q \<in> set (map fst fs)"
  by (metis map_of_eq_None_iff option.distinct(1) set_map)

lemma map_of_None_keys: "map_of fs q = None \<Longrightarrow> q \<notin> set (map fst fs)"
  by (simp add: map_of_eq_None_iff)

lemma children_update_old:
  "k \<in> set (map fst fs) \<Longrightarrow> children (AList.update k v fs) p = children fs p"
  by (simp add: children_def keys_update)

lemma children_update_new:
  "k \<notin> set (map fst fs) \<Longrightarrow>
     children (AList.update k v fs) p =
       children fs p @ (if k \<noteq> [] \<and> butlast k = p then [k] else [])"
  by (simp add: children_def keys_update)

lemma glob_update_old:
  "k \<in> set (map fst fs) \<Longrightarrow> glob_JPG (AList.update k v fs) p = glob_JPG fs p"
  by (simp add: glob_JPG_def keys_update)

lemma glob_update_subset:
  "set (glob_JPG (AList.update k v fs) p) \<subseteq> insert k (set (glob_JPG fs p))"
  by (auto simp: glob_JPG_def keys_update)

lemma glob_mono:
  "set (map fst fs) \<subseteq> set (map fst fs') \<Longrightarrow> set (glob_JPG fs p) \<subseteq> set (glob_JPG fs' p)"
  by (auto simp: glob_JPG_def)

lemma glob_in_keys: "q \<in> set (glob_JPG fs p) \<Longrightarrow> q \<in> set (map fst fs)"
  by (auto simp: glob_JPG_def)

lemma glob_endswith: "q \<in> set (glob_JPG fs p) \<Longrightarrow> endswith (last q) ''.JPG''"
  by (auto simp: glob_JPG_def)

lemma glob_entry_subset:
  assumes "entry \<in> set (children fs arg)"
  shows "set (glob_JPG fs entry) \<subseteq> set (glob_JPG fs arg)"
proof
  fix q assume q: "q \<in> set (glob_JPG fs entry)"
  from assms have e: "entry \<noteq> []" "butlast entry = arg"
    by (simp_all add: children_def)
  then have le: "length arg < length entry" by (metis length_butlast diff_less length_greater_0_conv zero_less_one)
  have t: "take (length arg) entry = arg"
    using e by (metis butlast_conv_take length_butlast)
  from q have q1: "length entry < length q" "take (length entry) q = entry"
    "endswith (last q) ''.JPG''" "q \<in> set (map fst fs)"
    by (auto simp: glob_JPG_def)
  have "take (length arg) q = take (length arg) (take (length entry) q)"
    using le by (simp add: min_def)
  then have "take (length arg) q = arg" using q1(2) t by simp
  then show "q \<in> set (glob_JPG fs arg)"
    using q1 le by (simp add: glob_JPG_def)
qed

lemma parents_listed_update:
  assumes "parents_listed fs" "k = [] \<or> butlast k = [] \<or> butlast k \<in> set (map fst fs)"
  shows "parents_listed (AList.update k v fs)"
  using assms by (auto simp: parents_listed_def keys_update list_all_iff)

lemma parents_listed_no_orphan:
  assumes "parents_listed fs" "d \<notin> set (map fst fs)" "d \<noteq> []"
  shows "children fs d = []"
proof -
  have "\<not> (q \<noteq> [] \<and> butlast q = d)" if "q \<in> set (map fst fs)" for q
    using assms that by (auto simp: parents_listed_def list_all_iff)
  then show ?thesis
    by (simp add: children_def filter_empty_conv)
qed

lemma makedirs_from_keys:
  assumes "makedirs_from base rest fs = Inr fs'"
  shows "\<exists>news. map fst fs' = map fst fs @ news \<and>
           (\<forall>q\<in>set news. q \<notin> set (map fst fs) \<and> (\<exists>i<length rest. q = base @ take (Suc i) rest))"
  using assms
proof (induction rest arbitrary: base fs)
  case Nil
  then show ?case by simp
next
  case (Cons a rest)
  show ?case
  proof (cases "node_at fs (base @ [a])")
    case None
    then have n: "base @ [a] \<notin> set (map fst fs)"
      by (simp add: node_at_def map_of_eq_None_iff)
    from Cons.prems None have "makedirs_from (base @ [a]) rest (AList.update (base @ [a]) Folder fs) = Inr fs'"
      by simp
    from Cons.IH [OF this] obtain news where
      k: "map fst fs' = map fst (AList.update (base @ [a]) Folder fs) @ news" and
      m: "\<forall>q\<in>set news. q \<notin> set (map fst (AList.update (base @ [a]) Folder fs)) \<and>
            (\<exists>i<length rest. q = (base @ [a]) @ take (Suc i) rest)"
      by blast
    have 1: "map fst fs' = map fst fs @ ((base @ [a]) # news)"
      using k n by (simp add: keys_update)
    have 2: "q \<notin> set (map fst fs) \<and> (\<exists>i<length (a # rest). q = base @ take (Suc i) (a # rest))"
      if "q \<in> set ((base @ [a]) # news)" for q
    proof (cases "q = base @ [a]")
      case True
      then show ?thesis using n by (auto intro: exI [of _ 0])
    next
      case False
      with that have "q \<in> set news" by simp
      with m obtain i where "q \<notin> set (map fst (AList.update (base @ [a]) Folder fs))"
        "i < length rest" "q = (base @ [a]) @ take (Suc i) rest" by blast
      then show ?thesis
        using n by (auto simp: keys_update intro: exI [of _ "Suc i"])
    qed
    from 1 2 show ?thesis by blast
  next
    case (Some nd)
    show ?thesis
    proof (cases nd)
      case (Regular c)
      with Cons.prems Some show ?thesis by simp
    next
      case Folder
      with Cons.prems Some have "makedirs_from (base @ [a]) rest fs = Inr fs'" by simp
      from Cons.IH [OF this] obtain news where
        k: "map fst fs' = map fst fs @ news" and
        m: "\<forall>q\<in>set news. q \<notin> set (map fst fs) \<and>
              (\<exists>i<length rest. q = (base @ [a]) @ take (Suc i) rest)"
        by blast
      have "q \<notin> set (map fst fs) \<and> (\<exists>i<length (a # rest). q = base @ take (Suc i) (a # rest))"
        if "q \<in> set news" for q
      proof -
        from m that obtain i where "q \<notin> set (map fst fs)"
          "i < length rest" "q = (base @ [a]) @ take (Suc i) rest" by blast
        then show ?thesis by (auto intro: exI [of _ "Suc i"])
      qed
      with k show ?thesis by blast
    qed
  qed
qed

lemma makedirs_from_old:
  assumes "makedirs_from base rest fs = Inr fs'" "q \<in> set (map fst fs)"
  shows "map_of fs' q = map_of fs q"
  using assms
proof (induction rest arbitrary: base fs)
  case Nil
  then show ?case by simp
next
  case (Cons a rest)
  show ?case
  proof (cases "node_at fs (base @ [a])")
    case None
    then have n: "base @ [a] \<notin> set (map fst fs)"
      by (simp add: node_at_def map_of_eq_None_iff)
    with Cons.prems(2) have ne: "q \<noteq> base @ [a]" by metis
    from Cons.prems None have "makedirs_from (base @ [a]) rest (AList.update (base @ [a]) Folder fs) = Inr fs'"
      by simp
    moreover have "q \<in> set (map fst (AList.update (base @ [a]) Folder fs))"
      using Cons.prems(2) by (simp add: keys_update)
    ultimately have "map_of fs' q = map_of (AList.update (base @ [a]) Folder fs) q"
      by (rule Cons.IH)
    then show ?thesis using ne by (simp add: map_of_update_other)
  next
    case (Some nd)
    then show ?thesis
      using Cons.prems Cons.IH by (cases nd) simp_all
  qed
qed

lemma makedirs_from_new:
  assumes "makedirs_from base rest fs = Inr fs'" "q \<in> set (map fst fs')" "q \<notin> set (map fst fs)"
  shows "map_of fs' q = Some Folder"
  using assms
proof (induction rest arbitrary: base fs)
  case Nil
  then show ?case by simp
next
  case (Cons a rest)
  show ?case
  proof (cases "node_at fs (base @ [a])")
    case None
    let ?fs1 = "AList.update (base @ [a]) Folder fs"
    from Cons.prems None have m: "makedirs_from (base @ [a]) rest ?fs1 = Inr fs'"
      by simp
    show ?thesis
    proof (cases "q = base @ [a]")
      case True
      have "base @ [a] \<in> set (map fst ?fs1)" by (simp add: keys_update)
      with m have "map_of fs' (base @ [a]) = map_of ?fs1 (base @ [a])"
        by (rule makedirs_from_old)
      then show ?thesis using True by (simp add: map_of_update_same)
    next
      case False
      then have "q \<notin> set (map fst ?fs1)"
        using Cons.prems(3) by (simp add: keys_update)
      with m Cons.prems(2) show ?thesis by (intro Cons.IH)
    qed
  next
    case (Some nd)
    then show ?thesis
      using Cons.prems Cons.IH by (cases nd) simp_all
  qed
qed

lemma makedirs_from_parents:
  assumes "makedirs_from base rest fs = Inr fs'" "parents_listed fs"
    "base = [] \<or> base \<in> set (map fst fs)"
  shows "parents_listed fs'"
  using assms
proof (induction rest arbitrary: base fs)
  case Nil
  then show ?case by simp
next
  case (Cons a rest)
  show ?case
  proof (cases "node_at fs (base @ [a])")
    case None
    let ?fs1 = "AList.update (base @ [a]) Folder fs"
    from Cons.prems None have m: "makedirs_from (base @ [a]) rest ?fs1 = Inr fs'"
      by simp
    have p: "parents_listed ?fs1"
      using Cons.prems(2,3) by (intro parents_listed_update) auto
    have b: "base @ [a] = [] \<or> base @ [a] \<in> set (map fst ?fs1)" by (simp add: keys_update)
    show ?thesis by (rule Cons.IH [OF m p b])
  next
    case (Some nd)
    show ?thesis
    proof (cases nd)
      case (Regular c)
      with Cons.prems Some show ?thesis by simp
    next
      case Folder
      with Cons.prems Some have m: "makedirs_from (base @ [a]) rest fs = Inr fs'" by simp
      have "map_of fs (base @ [a]) = Some nd"
        using Some by (simp add: node_at_def)
      then have "base @ [a] \<in> set (map fst fs)"
        by (rule map_of_in_keys)
      then have b: "base @ [a] = [] \<or> base @ [a] \<in> set (map fst fs)" by (rule disjI2)
      show ?thesis by (rule Cons.IH [OF m Cons.prems(2) b])
    qed
  qed
qed


section \<open>Names\<close>

lemma stem_nonempty: "c \<noteq> [] \<Longrightarrow> stem c \<noteq> []"
  by (auto simp: stem_def split: option.splits)

lemma plain_class_stem: "plain_class c \<Longrightarrow> plain_class (stem c)"
  by (simp add: plain_class_def stem_nonempty)

lemma class_directory_plain:
  "plain_class (parent_name p) \<Longrightarrow>
     class_directory p = augmented_directory @ [stem (parent_name p)]"
  by (simp add: class_directory_def plain_class_def stem_nonempty)

lemma parent_name_snoc: "d \<noteq> [] \<Longrightarrow> parent_name (d @ [n]) = last d"
  by (cases d) (simp_all add: parent_name_def)

lemma parent_name_snoc2: "parent_name (d @ [k, n]) = k"
proof -
  have "butlast (d @ [k, n]) = d @ [k]"
    by (simp add: butlast_append)
  then show ?thesis by (simp add: parent_name_def)
qed

lemma class_directory_of_copy:
  assumes "plain_class (parent_name p)"
  shows "parent_name (class_directory p @ [n]) = stem (parent_name p)"
    and "class_directory (class_directory p @ [n]) = class_directory p"
proof -
  have c: "class_directory p = augmented_directory @ [stem (parent_name p)]"
    using assms by (rule class_directory_plain)
  show 1: "parent_name (class_directory p @ [n]) = stem (parent_name p)"
    by (simp add: c parent_name_snoc2)
  have "plain_class (stem (parent_name p))"
    using assms by (rule plain_class_stem)
  then have "stem (stem (parent_name p)) \<noteq> []"
    by (simp add: plain_class_def stem_nonempty)
  moreover have "stem (stem (parent_name p)) = stem (parent_name p)"
    using assms by (simp add: plain_class_def)
  ultimately show "class_directory (class_directory p @ [n]) = class_directory p"
    unfolding class_directory_def [of "class_directory p @ [n]"] 1 by (simp add: c)
qed

section \<open>The largest directory\<close>

lemma foldl_max_key:
  fixes key :: "'a \<Rightarrow> nat"
  shows "key x \<le> key (foldl (\<lambda>b a. if key b < key a then a else b) x xs) \<and>
   (\<forall>y \<in> set xs. key y \<le> key (foldl (\<lambda>b a. if key b < key a then a else b) x xs))"
proof (induction xs arbitrary: x)
  case Nil
  then show ?case by simp
next
  case (Cons a xs)
  let ?x' = "if key x < key a then a else x"
  from Cons [of ?x'] have
    1: "key ?x' \<le> key (foldl (\<lambda>b a. if key b < key a then a else b) ?x' xs)" and
    2: "\<forall>y \<in> set xs. key y \<le> key (foldl (\<lambda>b a. if key b < key a then a else b) ?x' xs)"
    by blast+
  have "key x \<le> key ?x'" "key a \<le> key ?x'" by simp_all
  with 1 have "key x \<le> key (foldl (\<lambda>b a. if key b < key a then a else b) ?x' xs)"
    "key a \<le> key (foldl (\<lambda>b a. if key b < key a then a else b) ?x' xs)"
    by linarith+
  with 2 show ?case by simp
qed

lemma py_max_key_bounds:
  fixes key :: "'a \<Rightarrow> nat"
  assumes "py_max_key key xs = Inr m"
  shows "m \<in> set xs \<or> True" and "\<forall>y \<in> set xs. key y \<le> key m"
proof -
  show "m \<in> set xs \<or> True" by simp
  from assms obtain x rest where xs: "xs = x # rest"
    by (cases xs) simp_all
  with assms have m: "m = foldl (\<lambda>b a. if key b < key a then a else b) x rest" by simp
  show "\<forall>y \<in> set xs. key y \<le> key m"
    unfolding xs m using foldl_max_key [of key x rest] by simp
qed

lemma py_max_key_mem:
  assumes "py_max_key key xs = Inr m"
  shows "m \<in> set xs"
proof -
  have "foldl (\<lambda>b a. if key b < key a then a else b) x rest \<in> set (x # rest)" for x rest
    by (induction rest arbitrary: x) auto
  with assms show ?thesis by (cases xs) auto
qed

lemma map_raise_keyed:
  assumes "map_raise (\<lambda>x. and_then (iterdir fs x) (\<lambda>entries. Inr (x, length entries))) dirs
             = Inr keyed"
  shows "keyed = map (\<lambda>x. (x, length (children fs x))) dirs"
  using assms
proof (induction dirs arbitrary: keyed)
  case Nil
  then show ?case by simp
next
  case (Cons d dirs)
  from Cons.prems obtain es where e: "iterdir fs d = Inr es"
    by (cases "iterdir fs d") (simp_all add: and_then_def)
  then have es: "es = children fs d"
    by (auto simp: iterdir_def split: option.splits inode.splits)
  from Cons.prems e obtain ks where
    k: "map_raise (\<lambda>x. and_then (iterdir fs x) (\<lambda>entries. Inr (x, length entries))) dirs = Inr ks"
    and keyed: "keyed = (d, length es) # ks"
    by (cases "map_raise (\<lambda>x. and_then (iterdir fs x) (\<lambda>entries. Inr (x, length entries))) dirs")
      (auto simp: and_then_def)
  from Cons.IH [OF k] keyed es show ?case by simp
qed

lemma len_largest_directory_bounds:
  assumes "len_largest_directory fs = Inr t"
  shows "within_target t fs"
proof -
  let ?f = "\<lambda>x. and_then (iterdir fs x) (\<lambda>entries. Inr (x, length entries))"
  from assms obtain dirs where d: "iterdir fs augmented_directory = Inr dirs"
    by (cases "iterdir fs augmented_directory") (simp_all add: len_largest_directory_def and_then_def)
  then have dirs: "dirs = children fs augmented_directory"
    by (auto simp: iterdir_def split: option.splits inode.splits)
  from assms d obtain keyed where k: "map_raise ?f dirs = Inr keyed"
    by (cases "map_raise ?f dirs") (simp_all add: len_largest_directory_def and_then_def)
  note keyed = map_raise_keyed [OF k]
  from assms d k obtain m where m: "py_max_key snd keyed = Inr m"
    by (cases "py_max_key snd keyed") (simp_all add: len_largest_directory_def and_then_def)
  from assms d k m obtain es where e: "iterdir fs (fst m) = Inr es" and t: "t = length es"
    by (cases "iterdir fs (fst m)") (simp_all add: len_largest_directory_def and_then_def)
  from e have es: "es = children fs (fst m)"
    by (auto simp: iterdir_def split: option.splits inode.splits)
  have "m \<in> set keyed" using m by (rule py_max_key_mem)
  then have sm: "snd m = length (children fs (fst m))"
    unfolding keyed by auto
  have "length (children fs x) \<le> t" if "x \<in> set dirs" for x
  proof -
    have "(x, length (children fs x)) \<in> set keyed"
      unfolding keyed using that by simp
    with py_max_key_bounds(2) [OF m] have "snd (x, length (children fs x)) \<le> snd m"
      by (rule bspec)
    then show ?thesis using sm t es by simp
  qed
  then show ?thesis
    by (simp add: within_target_def list_all_iff dirs)
qed


section \<open>Tables with the same or more keys\<close>

lemma same_keys:
  assumes "map fst fs' = map fst fs"
  shows "children fs' p = children fs p" and "glob_JPG fs' p = glob_JPG fs p"
    and "parents_listed fs' = parents_listed fs" and "within_target t fs' = within_target t fs"
    and "balanced_so_far t arg fs' = balanced_so_far t arg fs"
  using assms
  by (simp_all add: children_def glob_JPG_def parents_listed_def within_target_def
      balanced_so_far_def)

lemma balanced_update_old:
  "k \<in> set (map fst fs) \<Longrightarrow>
     balanced_so_far t arg (AList.update k v fs) = balanced_so_far t arg fs"
  by (rule same_keys) (simp add: keys_update)

lemma children_append:
  "map fst fs' = map fst fs @ news \<Longrightarrow>
     children fs' p = children fs p @ filter (\<lambda>q. q \<noteq> [] \<and> butlast q = p) news"
  by (simp add: children_def)

lemma glob_append:
  "map fst fs' = map fst fs @ news \<Longrightarrow>
     glob_JPG fs' p = glob_JPG fs p @
       filter (\<lambda>q. length p < length q \<and> take (length p) q = p \<and> endswith (last q) ''.JPG'') news"
  by (simp add: glob_JPG_def)

lemma out_length: "length augmented_directory = 3"
  by (simp add: augmented_directory_def)

lemma child_of_out_length:
  assumes "d \<in> set (children fs augmented_directory)"
  shows "length d = 4"
proof -
  from assms have "d \<noteq> []" "butlast d = augmented_directory"
    by (simp_all add: children_def)
  then have "length d - 1 = 3"
    using out_length by (metis length_butlast)
  moreover have "0 < length d" using \<open>d \<noteq> []\<close> by simp
  ultimately show ?thesis by linarith
qed

lemma within_target_extend:
  assumes "within_target t fs" "parents_listed fs" "map fst fs' = map fst fs @ news"
    and news: "\<forall>q\<in>set news. q \<notin> set (map fst fs) \<and> length q \<le> 4"
  shows "within_target t fs'"
proof -
  have same: "children fs' d = children fs d" if "length d = 4" for d
  proof -
    have "\<not> (q \<noteq> [] \<and> butlast q = d)" if "q \<in> set news" for q
    proof
      assume "q \<noteq> [] \<and> butlast q = d"
      then have "length q - 1 = 4" using \<open>length d = 4\<close> by (metis length_butlast)
      moreover have "length q \<le> 4" using news that by blast
      ultimately show False by linarith
    qed
    then have "filter (\<lambda>q. q \<noteq> [] \<and> butlast q = d) news = []"
      by (simp add: filter_empty_conv)
    then show ?thesis by (simp add: children_append [OF assms(3)])
  qed
  have "length (children fs' d) \<le> t" if d: "d \<in> set (children fs' augmented_directory)" for d
  proof -
    have l: "length d = 4" using d by (rule child_of_out_length)
    from d have "d \<in> set (children fs augmented_directory) \<or> (d \<in> set news \<and> d \<noteq> [])"
      by (auto simp: children_append [OF assms(3)])
    then show ?thesis
    proof
      assume "d \<in> set (children fs augmented_directory)"
      then have "length (children fs d) \<le> t"
        using assms(1) by (simp add: within_target_def list_all_iff)
      then show ?thesis by (simp add: same [OF l])
    next
      assume n: "d \<in> set news \<and> d \<noteq> []"
      then have "d \<notin> set (map fst fs)" using news by blast
      with assms(2) have "children fs d = []"
        using n by (intro parents_listed_no_orphan) simp_all
      then show ?thesis by (simp add: same [OF l])
    qed
  qed
  then show ?thesis by (simp add: within_target_def list_all_iff)
qed

lemma within_target_new_file:
  assumes "within_target t fs"
    and "sp = augmented_directory @ [c]"
    and "length (children fs sp) < t"
  shows "within_target t (AList.update (sp @ [n]) v fs)"
proof (cases "sp @ [n] \<in> set (map fst fs)")
  case True
  then have "map fst (AList.update (sp @ [n]) v fs) = map fst fs"
    by (simp add: keys_update)
  then have "within_target t (AList.update (sp @ [n]) v fs) = within_target t fs"
    by (rule same_keys(4))
  then show ?thesis using assms(1) by simp
next
  case False
  have ch: "children (AList.update (sp @ [n]) v fs) p =
      children fs p @ (if sp = p then [sp @ [n]] else [])" for p
    using False by (simp add: children_update_new)
  have ne: "sp \<noteq> augmented_directory" using assms(2) by simp
  have "length (children (AList.update (sp @ [n]) v fs) d) \<le> t"
    if "d \<in> set (children (AList.update (sp @ [n]) v fs) augmented_directory)" for d
  proof -
    from that ne have "d \<in> set (children fs augmented_directory)"
      by (simp add: ch)
    then have "length (children fs d) \<le> t"
      using assms(1) by (simp add: within_target_def list_all_iff)
    moreover have "length (children (AList.update (sp @ [n]) v fs) d) =
        length (children fs d) + (if sp = d then 1 else 0)"
      by (simp add: ch)
    ultimately show ?thesis using assms(3) by (cases "sp = d") simp_all
  qed
  then show ?thesis by (simp add: within_target_def list_all_iff)
qed

section \<open>The invariant and the writes\<close>

lemma way_to_class_directory:
  assumes "plain_class c" "i < 4"
  shows "\<not> endswith ((augmented_directory @ [stem c]) ! i) ''.JPG''"
proof -
  from assms(2) consider "i = 0" | "i = 1" | "i = 2" | "i = 3" by linarith
  then show ?thesis
  proof cases
    case 1 then show ?thesis by (simp add: augmented_directory_def endswith_def)
  next
    case 2 then show ?thesis by (simp add: augmented_directory_def endswith_def)
  next
    case 3 then show ?thesis by (simp add: augmented_directory_def endswith_def)
  next
    case 4 then show ?thesis using assms(1) by (simp add: augmented_directory_def plain_class_def)
  qed
qed

lemma balanced_makedirs:
  assumes "balanced_so_far t arg fs" "plain_class c"
    and "makedirs (augmented_directory @ [stem c]) fs = Inr fs'"
  shows "balanced_so_far t arg fs'" and "set (map fst fs) \<subseteq> set (map fst fs')"
proof -
  let ?sp = "augmented_directory @ [stem c]"
  have len: "length ?sp = 4" by (simp add: out_length)
  from assms(3) have m: "makedirs_from [] ?sp fs = Inr fs'" by (simp add: makedirs_def)
  from makedirs_from_keys [OF m] obtain news where
    k: "map fst fs' = map fst fs @ news" and
    n: "\<forall>q\<in>set news. q \<notin> set (map fst fs) \<and> (\<exists>i<length ?sp. q = [] @ take (Suc i) ?sp)"
    by blast
  show keys: "set (map fst fs) \<subseteq> set (map fst fs')"
    using k by (metis set_append Un_upper1)
  have n4: "\<forall>q\<in>set news. q \<notin> set (map fst fs) \<and> length q \<le> 4"
  proof
    fix q assume "q \<in> set news"
    with n obtain i where "q \<notin> set (map fst fs)" "i < length ?sp" "q = [] @ take (Suc i) ?sp"
      by blast
    then show "q \<notin> set (map fst fs) \<and> length q \<le> 4" using len by simp
  qed
  have w: "within_target t fs'"
    using assms(1) k n4 by (intro within_target_extend [of t fs fs' news]) (simp_all add: balanced_so_far_def)
  have p: "parents_listed fs'"
    using m assms(1) by (intro makedirs_from_parents [of "[]" ?sp fs fs']) (simp_all add: balanced_so_far_def)
  have nj: "\<not> endswith (last q) ''.JPG''" if "q \<in> set news" for q
  proof -
    from n that obtain i where i: "i < length ?sp" "q = [] @ take (Suc i) ?sp" by blast
    have "take (Suc i) ?sp = take i ?sp @ [?sp ! i]"
      using i(1) by (rule take_Suc_conv_app_nth)
    then have "q = take i ?sp @ [?sp ! i]"
      using i(2) by (simp only: append_Nil)
    then have "last q = ?sp ! i" by (simp only: last_snoc)
    moreover have "i < 4" using i(1) len by simp
    ultimately show ?thesis using way_to_class_directory [OF assms(2)] by simp
  qed
  then have "filter (\<lambda>q. length arg < length q \<and> take (length arg) q = arg \<and>
      endswith (last q) ''.JPG'') news = []"
    by (simp add: filter_empty_conv)
  then have g: "glob_JPG fs' arg = glob_JPG fs arg"
    by (simp add: glob_append [OF k])
  have "plain_class (parent_name q) \<and> class_directory q @ [last q] \<in> set (map fst fs')"
    if "q \<in> set (glob_JPG fs arg)" for q
    using assms(1) that keys by (auto simp: balanced_so_far_def list_all_iff)
  then show "balanced_so_far t arg fs'"
    using w p by (simp add: balanced_so_far_def g list_all_iff)
qed

lemma balanced_new_file:
  assumes "balanced_so_far t arg fs" "plain_class c"
    and sp: "sp = augmented_directory @ [stem c]"
    and "sp \<in> set (map fst fs)"
    and "length (children fs sp) < t"
  shows "balanced_so_far t arg (AList.update (sp @ [n]) v fs)"
proof (cases "sp @ [n] \<in> set (map fst fs)")
  case True
  then show ?thesis using assms(1) by (simp add: balanced_update_old)
next
  case False
  let ?k = "sp @ [n]"
  let ?fs = "AList.update ?k v fs"
  have keys: "set (map fst ?fs) = insert ?k (set (map fst fs))"
    using False by (simp add: keys_update)
  have w: "within_target t ?fs"
    using assms(1) sp assms(5)
    by (intro within_target_new_file [of t fs sp "stem c"]) (simp_all add: balanced_so_far_def)
  have p: "parents_listed ?fs"
    using assms(1,4) by (intro parents_listed_update) (simp_all add: balanced_so_far_def)
  have pn: "parent_name ?k = stem c"
    unfolding sp by (simp add: parent_name_snoc2)
  have pc: "plain_class (stem c)" using assms(2) by (rule plain_class_stem)
  have cd: "class_directory ?k = sp"
  proof -
    have "stem (stem c) = stem c" "stem (stem c) \<noteq> []"
      using assms(2) pc by (simp_all add: plain_class_def stem_nonempty)
    then show ?thesis by (simp add: class_directory_def sp parent_name_snoc2)
  qed
  have "plain_class (parent_name q) \<and> class_directory q @ [last q] \<in> set (map fst ?fs)"
    if "q \<in> set (glob_JPG ?fs arg)" for q
  proof (cases "q = ?k")
    case True
    then show ?thesis using pc keys by (simp add: pn cd)
  next
    case False
    with that glob_update_subset [of ?k v fs arg] have "q \<in> set (glob_JPG fs arg)" by blast
    then show ?thesis
      using assms(1) keys by (auto simp: balanced_so_far_def list_all_iff)
  qed
  then show ?thesis
    using w p by (simp add: balanced_so_far_def list_all_iff)
qed


section \<open>Runs\<close>

lemma final_simps: "final (Inr s) = s" "final (Inl (e, s)) = s"
  by (simp_all add: final_def)

lemma and_then_final:
  assumes "\<And>e s'. m = Inl (e, s') \<Longrightarrow> P s'" "\<And>x. m = Inr x \<Longrightarrow> P (final (k x))"
  shows "P (final (and_then m k))"
proof (cases m)
  case (Inl a)
  obtain e s' where "a = (e, s')" by (rule prod.exhaust)
  with Inl assms(1) show ?thesis by (simp add: and_then_def final_def)
next
  case (Inr x)
  with assms(2) show ?thesis by (simp add: and_then_def)
qed

lemma raising_final:
  assumes "P s" "\<And>x. m = Inr x \<Longrightarrow> P (final (k x))"
  shows "P (final (and_then (raising s m) k))"
proof (cases m)
  case (Inl e)
  with assms(1) show ?thesis by (simp add: raising_def and_then_def final_def)
next
  case (Inr x)
  with assms(2) show ?thesis by (simp add: raising_def and_then_def)
qed

lemma for_each_final:
  assumes "P s" "\<And>x s. x \<in> set xs \<Longrightarrow> P s \<Longrightarrow> P (final (f x s))"
  shows "P (final (for_each f xs s))"
  using assms
proof (induction xs arbitrary: s)
  case Nil
  then show ?case by (simp add: final_def)
next
  case (Cons x xs)
  have step: "P (final (f x s))" using Cons.prems by simp
  show ?case
    unfolding for_each.simps
  proof (rule and_then_final)
    fix e s' assume "f x s = Inl (e, s')"
    with step show "P s'" by (simp add: final_def)
  next
    fix s' assume "f x s = Inr s'"
    with step have "P s'" by (simp add: final_def)
    then show "P (final (for_each f xs s'))"
      using Cons.prems(2) by (intro Cons.IH) simp_all
  qed
qed

lemma iterdir_children: "iterdir fs p = Inr listed \<Longrightarrow> listed = children fs p"
  by (auto simp: iterdir_def split: option.splits inode.splits)

lemma imsave_cases:
  "(\<exists>e. imsave lib file arr s = Inl (e, s)) \<or>
   (\<exists>img. imsave lib file arr s =
      Inr (set_fs (AList.update file (Regular (Some (saved lib img))) (st_fs s)) s) \<and>
      arr = Some img \<and> node_at (st_fs s) (butlast file) = Some Folder \<and> \<not> isdir (st_fs s) file)"
  by (auto simp: imsave_def split: option.splits inode.splits)

section \<open>The invariant along a run\<close>

lemma inv_set_fs:
  assumes "balancing_invariant n t arg listed s" "balanced_so_far t arg fs'"
    and "set (map fst (st_fs s)) \<subseteq> set (map fst fs')"
  shows "balancing_invariant n t arg listed (set_fs fs' s)"
proof -
  from assms(1) have n: "n \<le> length (st_trace s)"
    and tr: "list_all (within_target t) (drop n (st_trace s))"
    and l: "list_all (\<lambda>q. q \<in> set (map fst (st_fs s))) listed"
    by (simp_all add: balancing_invariant_def)
  have w: "within_target t fs'" using assms(2) by (simp add: balanced_so_far_def)
  have d: "drop n (st_trace s @ [fs']) = drop n (st_trace s) @ [fs']"
    using n by simp
  have l': "list_all (\<lambda>q. q \<in> set (map fst fs')) listed"
    using l assms(3) by (auto simp: list_all_iff)
  show ?thesis
    unfolding balancing_invariant_def set_fs_def
    using n tr w l' assms(2) by (simp add: d)
qed

lemma inv_rng:
  "balancing_invariant n t arg listed (s\<lparr>st_rng := g\<rparr>) = balancing_invariant n t arg listed s"
  by (simp add: balancing_invariant_def)

lemma inv_imsave_old:
  assumes "balancing_invariant n t arg listed s" "file \<in> set (map fst (st_fs s))"
  shows "balancing_invariant n t arg listed (final (imsave lib file arr s))"
proof -
  from imsave_cases [of lib "file" arr s] show ?thesis
  proof (elim disjE exE conjE)
    fix e assume "imsave lib file arr s = Inl (e, s)"
    then show ?thesis using assms(1) by (simp add: final_def)
  next
    fix img
    assume i: "imsave lib file arr s =
      Inr (set_fs (AList.update file (Regular (Some (saved lib img))) (st_fs s)) s)"
    have b: "balanced_so_far t arg (AList.update file (Regular (Some (saved lib img))) (st_fs s))"
      using assms by (simp add: balanced_update_old balancing_invariant_def)
    have k: "set (map fst (st_fs s)) \<subseteq>
        set (map fst (AList.update file (Regular (Some (saved lib img))) (st_fs s)))"
      using assms(2) by (simp add: keys_update)
    show ?thesis
      unfolding i final_simps by (rule inv_set_fs [OF assms(1) b k])
  qed
qed

lemma inv_imsave_new:
  assumes "balancing_invariant n t arg listed s" "plain_class c"
    and sp: "sp = augmented_directory @ [stem c]"
    and "length (children (st_fs s) sp) < t"
  shows "balancing_invariant n t arg listed (final (imsave lib (sp @ [name]) arr s))"
proof -
  from imsave_cases [of lib "sp @ [name]" arr s] show ?thesis
  proof (elim disjE exE conjE)
    fix e assume "imsave lib (sp @ [name]) arr s = Inl (e, s)"
    then show ?thesis using assms(1) by (simp add: final_def)
  next
    fix img
    assume i: "imsave lib (sp @ [name]) arr s =
      Inr (set_fs (AList.update (sp @ [name]) (Regular (Some (saved lib img))) (st_fs s)) s)"
      and f: "node_at (st_fs s) (butlast (sp @ [name])) = Some Folder"
    have "sp \<noteq> []" using sp by simp
    with f have "map_of (st_fs s) sp = Some Folder" by (simp add: node_at_def)
    then have m: "sp \<in> set (map fst (st_fs s))" by (rule map_of_in_keys)
    have bs: "balanced_so_far t arg (st_fs s)"
      using assms(1) by (simp add: balancing_invariant_def)
    have b: "balanced_so_far t arg
        (AList.update (sp @ [name]) (Regular (Some (saved lib img))) (st_fs s))"
      by (rule balanced_new_file [OF bs assms(2) sp m assms(4)])
    have k: "set (map fst (st_fs s)) \<subseteq>
        set (map fst (AList.update (sp @ [name]) (Regular (Some (saved lib img))) (st_fs s)))"
      by (auto simp: keys_update)
    show ?thesis
      unfolding i final_simps by (rule inv_set_fs [OF assms(1) b k])
  qed
qed

lemma inv_augment:
  assumes "balancing_invariant n t arg listed s" "plain_class c"
    and sp: "sp = augmented_directory @ [stem c]"
    and "length (children (st_fs s) sp) < t"
  shows "balancing_invariant n t arg listed (final (augment lib p sp t ty s))"
  unfolding augment_def
proof (rule raising_final [where P = "balancing_invariant n t arg listed", OF assms(1)])
  fix listing
  show "balancing_invariant n t arg listed
     (final (and_then (raising s (call_method lib ty (imread (st_fs s) p) (st_rng s)))
        (\<lambda>(aug_img, g').
           and_then (raising s (cv2_resize lib aug_img (256, 256)))
             (\<lambda>resized. imsave lib (sp @ [stem (last p) @ ''_'' @ title ty @ ''.JPG''])
                (Some resized) (s\<lparr>st_rng := g'\<rparr>)))))"
  proof (rule raising_final [where P = "balancing_invariant n t arg listed", OF assms(1)])
    fix x :: "image \<times> rng"
    obtain aug_img g' where x: "x = (aug_img, g')" by (rule prod.exhaust)
    have "balancing_invariant n t arg listed
       (final (and_then (raising s (cv2_resize lib aug_img (256, 256)))
          (\<lambda>resized. imsave lib (sp @ [stem (last p) @ ''_'' @ title ty @ ''.JPG''])
             (Some resized) (s\<lparr>st_rng := g'\<rparr>))))"
    proof (rule raising_final [where P = "balancing_invariant n t arg listed", OF assms(1)])
      fix resized
      have i: "balancing_invariant n t arg listed (s\<lparr>st_rng := g'\<rparr>)"
        using assms(1) by (simp add: inv_rng)
      have l: "length (children (st_fs (s\<lparr>st_rng := g'\<rparr>)) sp) < t"
        using assms(4) by simp
      show "balancing_invariant n t arg listed
         (final (imsave lib (sp @ [stem (last p) @ ''_'' @ title ty @ ''.JPG''])
            (Some resized) (s\<lparr>st_rng := g'\<rparr>)))"
        by (rule inv_imsave_new [OF i assms(2) sp l])
    qed
    then show "balancing_invariant n t arg listed
       (final (case x of (aug_img, g') \<Rightarrow>
          and_then (raising s (cv2_resize lib aug_img (256, 256)))
            (\<lambda>resized. imsave lib (sp @ [stem (last p) @ ''_'' @ title ty @ ''.JPG''])
               (Some resized) (s\<lparr>st_rng := g'\<rparr>))))"
      by (simp add: x)
  qed
qed

lemma inv_augment_if_below:
  assumes "balancing_invariant n t arg listed s" "plain_class c"
    and sp: "sp = augmented_directory @ [stem c]"
  shows "balancing_invariant n t arg listed (final (augment_if_below lib p sp t ty s))"
  unfolding augment_if_below_def
proof (rule raising_final [where P = "balancing_invariant n t arg listed", OF assms(1)])
  fix listing
  assume "iterdir (st_fs s) sp = Inr listing"
  then have l: "listing = children (st_fs s) sp" by (rule iterdir_children)
  show "balancing_invariant n t arg listed
     (final (if length listing < t then augment lib p sp t ty s else Inr s))"
  proof (cases "length listing < t")
    case True
    then have "length (children (st_fs s) sp) < t" using l by simp
    from inv_augment [OF assms(1,2) sp this] True show ?thesis by simp
  next
    case False
    then show ?thesis using assms(1) by (simp add: final_def)
  qed
qed

lemma inv_balance_image:
  assumes "balancing_invariant n t arg listed s" "p \<in> set (glob_JPG (st_fs s) arg)"
  shows "balancing_invariant n t arg listed (final (balance_image lib t p s))"
proof -
  let ?c = "parent_name p"
  let ?sp = "class_directory p"
  have bs: "balanced_so_far t arg (st_fs s)"
    using assms(1) by (simp add: balancing_invariant_def)
  with assms(2) have pc: "plain_class ?c" and pr: "?sp @ [last p] \<in> set (map fst (st_fs s))"
    by (simp_all add: balanced_so_far_def list_all_iff)
  have sp: "?sp = augmented_directory @ [stem ?c]"
    using pc by (rule class_directory_plain)
  have "balancing_invariant n t arg listed
     (final (and_then (raising s (makedirs ?sp (st_fs s))) (\<lambda>fs1.
        and_then (imsave lib (?sp @ [last p]) (imread (st_fs s) p) (set_fs fs1 s))
          (for_each (augment_if_below lib p ?sp t) augmentation_order))))"
  proof (rule raising_final [where P = "balancing_invariant n t arg listed", OF assms(1)])
    fix fs1
    assume "makedirs ?sp (st_fs s) = Inr fs1"
    then have m: "makedirs (augmented_directory @ [stem ?c]) (st_fs s) = Inr fs1"
      using sp by simp
    note b1 = balanced_makedirs [OF bs pc m]
    have i1: "balancing_invariant n t arg listed (set_fs fs1 s)"
      by (rule inv_set_fs [OF assms(1) b1])
    have pr1: "?sp @ [last p] \<in> set (map fst (st_fs (set_fs fs1 s)))"
      using pr b1(2) by (auto simp: set_fs_def)
    have i2: "balancing_invariant n t arg listed
        (final (imsave lib (?sp @ [last p]) (imread (st_fs s) p) (set_fs fs1 s)))"
      by (rule inv_imsave_old [OF i1 pr1])
    show "balancing_invariant n t arg listed
       (final (and_then (imsave lib (?sp @ [last p]) (imread (st_fs s) p) (set_fs fs1 s))
          (for_each (augment_if_below lib p ?sp t) augmentation_order)))"
    proof (rule and_then_final)
      fix e s'
      assume "imsave lib (?sp @ [last p]) (imread (st_fs s) p) (set_fs fs1 s) = Inl (e, s')"
      with i2 show "balancing_invariant n t arg listed s'" by (simp add: final_def)
    next
      fix s2
      assume "imsave lib (?sp @ [last p]) (imread (st_fs s) p) (set_fs fs1 s) = Inr s2"
      with i2 have "balancing_invariant n t arg listed s2" by (simp add: final_def)
      then show "balancing_invariant n t arg listed
         (final (for_each (augment_if_below lib p ?sp t) augmentation_order s2))"
      proof (rule for_each_final)
        fix ty s3
        assume "balancing_invariant n t arg listed s3"
        then show "balancing_invariant n t arg listed (final (augment_if_below lib p ?sp t ty s3))"
          using pc sp by (rule inv_augment_if_below)
      qed
    qed
  qed
  then show ?thesis by (simp add: balance_image_def Let_def)
qed

lemma glob_static:
  assumes "q \<in> set (glob_JPG fs p)" "q \<in> set (map fst fs')"
  shows "q \<in> set (glob_JPG fs' p)"
  using assms by (simp add: glob_JPG_def)

lemma glob_below_entry:
  assumes "entry \<noteq> []" "butlast entry = arg"
  shows "set (glob_JPG fs entry) \<subseteq> set (glob_JPG fs arg)"
proof
  fix q assume q: "q \<in> set (glob_JPG fs entry)"
  have le: "length arg < length entry"
    using assms by (metis length_butlast diff_less length_greater_0_conv zero_less_one)
  have t: "take (length arg) entry = arg"
    using assms by (metis butlast_conv_take length_butlast)
  from q have q1: "length entry < length q" "take (length entry) q = entry"
    "endswith (last q) ''.JPG''" "q \<in> set (map fst fs)"
    by (auto simp: glob_JPG_def)
  have "take (length arg) q = take (length arg) (take (length entry) q)"
    using le by (simp add: min_def)
  then have "take (length arg) q = arg" using q1(2) t by simp
  then show "q \<in> set (glob_JPG fs arg)"
    using q1 le by (simp add: glob_JPG_def)
qed

lemma inv_listed:
  "balancing_invariant n t arg (listed @ others) s \<longleftrightarrow>
     balancing_invariant n t arg listed s \<and> list_all (\<lambda>q. q \<in> set (map fst (st_fs s))) others"
  by (simp add: balancing_invariant_def conj_assoc)

lemma inv_images:
  assumes "balancing_invariant n t arg listed s" "set images \<subseteq> set (glob_JPG (st_fs s) arg)"
  shows "balancing_invariant n t arg listed (final (for_each (balance_image lib t) images s))"
proof -
  have "q \<in> set (map fst (st_fs s))" if "q \<in> set images" for q
  proof -
    from assms(2) that have "q \<in> set (glob_JPG (st_fs s) arg)" by (rule subsetD)
    then show ?thesis by (rule glob_in_keys)
  qed
  then have "list_all (\<lambda>q. q \<in> set (map fst (st_fs s))) images"
    unfolding list_all_iff by (rule ballI)
  with assms(1) have "balancing_invariant n t arg (listed @ images) s"
    by (simp add: inv_listed)
  then have "balancing_invariant n t arg (listed @ images)
      (final (for_each (balance_image lib t) images s))"
  proof (rule for_each_final)
    fix p s'
    assume p: "p \<in> set images" and i: "balancing_invariant n t arg (listed @ images) s'"
    from i have "list_all (\<lambda>q. q \<in> set (map fst (st_fs s'))) images"
      by (simp add: inv_listed)
    then have k: "p \<in> set (map fst (st_fs s'))"
      using p unfolding list_all_iff by (rule bspec)
    from assms(2) p have "p \<in> set (glob_JPG (st_fs s) arg)" by (rule subsetD)
    then have "p \<in> set (glob_JPG (st_fs s') arg)" using k by (rule glob_static)
    with i show "balancing_invariant n t arg (listed @ images) (final (balance_image lib t p s'))"
      by (rule inv_balance_image)
  qed
  then show ?thesis by (simp add: inv_listed)
qed

lemma inv_balance:
  assumes "balancing_invariant n t arg listed s"
  shows "balancing_invariant n t arg listed (final (balance lib t arg s))"
  unfolding balance_def
proof (rule raising_final [where P = "balancing_invariant n t arg listed", OF assms])
  fix entries
  assume "iterdir (st_fs s) arg = Inr entries"
  then have e: "entries = children (st_fs s) arg" by (rule iterdir_children)
  from assms show "balancing_invariant n t arg listed
     (final (for_each
        (\<lambda>entry s'. for_each (balance_image lib t) (glob_JPG (st_fs s') entry) s') entries s))"
  proof (rule for_each_final)
    fix entry s'
    assume "entry \<in> set entries" and i: "balancing_invariant n t arg listed s'"
    then have "entry \<noteq> []" "butlast entry = arg"
      by (simp_all add: e children_def)
    then have "set (glob_JPG (st_fs s') entry) \<subseteq> set (glob_JPG (st_fs s') arg)"
      by (rule glob_below_entry)
    with i show "balancing_invariant n t arg listed
       (final (for_each (balance_image lib t) (glob_JPG (st_fs s') entry) s'))"
      by (rule inv_images)
  qed
qed


section \<open>The copies made before balancing\<close>

lemma makedirs_class_directory:
  assumes "plain_class c" "parents_listed fs"
    and "makedirs (augmented_directory @ [stem c]) fs = Inr fs'"
  shows "parents_listed fs'" and "set (map fst fs) \<subseteq> set (map fst fs')"
    and "glob_JPG fs' arg = glob_JPG fs arg"
proof -
  let ?sp = "augmented_directory @ [stem c]"
  have len: "length ?sp = 4" by (simp add: out_length)
  from assms(3) have m: "makedirs_from [] ?sp fs = Inr fs'" by (simp add: makedirs_def)
  from makedirs_from_keys [OF m] obtain news where
    k: "map fst fs' = map fst fs @ news" and
    n: "\<forall>q\<in>set news. q \<notin> set (map fst fs) \<and> (\<exists>i<length ?sp. q = [] @ take (Suc i) ?sp)"
    by blast
  show "set (map fst fs) \<subseteq> set (map fst fs')"
    using k by (metis set_append Un_upper1)
  show "parents_listed fs'"
    using m assms(2) by (intro makedirs_from_parents [of "[]" ?sp fs fs']) simp_all
  have nj: "\<not> endswith (last q) ''.JPG''" if "q \<in> set news" for q
  proof -
    from n that obtain i where i: "i < length ?sp" "q = [] @ take (Suc i) ?sp" by blast
    have "take (Suc i) ?sp = take i ?sp @ [?sp ! i]"
      using i(1) by (rule take_Suc_conv_app_nth)
    then have "q = take i ?sp @ [?sp ! i]"
      using i(2) by (simp only: append_Nil)
    then have "last q = ?sp ! i" by (simp only: last_snoc)
    moreover have "i < 4" using i(1) len by simp
    ultimately show ?thesis using way_to_class_directory [OF assms(1)] by simp
  qed
  then have "filter (\<lambda>q. length arg < length q \<and> take (length arg) q = arg \<and>
      endswith (last q) ''.JPG'') news = []"
    by (simp add: filter_empty_conv)
  then show "glob_JPG fs' arg = glob_JPG fs arg"
    by (simp add: glob_append [OF k])
qed

lemma copy_image_step:
  assumes "copy_image lib x s = Inr s1" "plain_class (parent_name x)" "parents_listed (st_fs s)"
  shows "parents_listed (st_fs s1)"
    and "set (map fst (st_fs s)) \<subseteq> set (map fst (st_fs s1))"
    and "class_directory x @ [last x] \<in> set (map fst (st_fs s1))"
    and "set (glob_JPG (st_fs s1) arg)
           \<subseteq> insert (class_directory x @ [last x]) (set (glob_JPG (st_fs s) arg))"
proof -
  let ?sp = "class_directory x"
  let ?k = "?sp @ [last x]"
  have sp: "?sp = augmented_directory @ [stem (parent_name x)]"
    using assms(2) by (rule class_directory_plain)
  from assms(1) obtain fs1 where m: "makedirs ?sp (st_fs s) = Inr fs1"
    and i: "imsave lib ?k (imread fs1 x) (set_fs fs1 s) = Inr s1"
    by (cases "makedirs ?sp (st_fs s)") (simp_all add: copy_image_def Let_def raising_def and_then_def)
  from m have m': "makedirs (augmented_directory @ [stem (parent_name x)]) (st_fs s) = Inr fs1"
    using sp by simp
  note mk = makedirs_class_directory [OF assms(2,3) m']
  from imsave_cases [of lib ?k "imread fs1 x" "set_fs fs1 s"] i obtain img where
    s1: "s1 = set_fs (AList.update ?k (Regular (Some (saved lib img))) (st_fs (set_fs fs1 s)))
           (set_fs fs1 s)"
    and f: "node_at (st_fs (set_fs fs1 s)) (butlast ?k) = Some Folder"
    by auto
  have fs: "st_fs s1 = AList.update ?k (Regular (Some (saved lib img))) fs1"
    by (simp add: s1 set_fs_def)
  have "?sp \<noteq> []" using sp by simp
  with f have "map_of fs1 ?sp = Some Folder" by (simp add: node_at_def set_fs_def)
  then have spk: "?sp \<in> set (map fst fs1)" by (rule map_of_in_keys)
  show "parents_listed (st_fs s1)"
    unfolding fs using mk(1) spk by (intro parents_listed_update) simp_all
  have k1: "set (map fst fs1) \<subseteq> set (map fst (st_fs s1))"
    unfolding fs by (auto simp: keys_update)
  with mk(2) show "set (map fst (st_fs s)) \<subseteq> set (map fst (st_fs s1))"
    by (rule subset_trans)
  show "?k \<in> set (map fst (st_fs s1))"
    unfolding fs by (simp add: keys_update)
  have "set (glob_JPG (st_fs s1) arg) \<subseteq> insert ?k (set (glob_JPG fs1 arg))"
    unfolding fs by (rule glob_update_subset)
  then show "set (glob_JPG (st_fs s1) arg) \<subseteq> insert ?k (set (glob_JPG (st_fs s) arg))"
    by (simp only: mk(3))
qed

lemma copy_images_present:
  assumes "for_each (copy_image lib) images s = Inr s'"
    and "parents_listed (st_fs s)"
    and "\<forall>p\<in>set images. plain_class (parent_name p)"
    and "\<forall>p\<in>set (glob_JPG (st_fs s) arg). plain_class (parent_name p) \<and>
           (p \<in> set images \<or> class_directory p @ [last p] \<in> set (map fst (st_fs s)))"
  shows "parents_listed (st_fs s') \<and>
     (\<forall>p\<in>set (glob_JPG (st_fs s') arg). plain_class (parent_name p) \<and>
        class_directory p @ [last p] \<in> set (map fst (st_fs s')))"
  using assms
proof (induction images arbitrary: s)
  case Nil
  then show ?case by simp
next
  case (Cons x xs)
  from Cons.prems(1) obtain s1 where 1: "copy_image lib x s = Inr s1"
    and 2: "for_each (copy_image lib) xs s1 = Inr s'"
    by (cases "copy_image lib x s") (simp_all add: and_then_def)
  have px: "plain_class (parent_name x)" using Cons.prems(3) by simp
  note st = copy_image_step [OF 1 px Cons.prems(2)]
  let ?k = "class_directory x @ [last x]"
  have a3: "\<forall>p\<in>set xs. plain_class (parent_name p)" using Cons.prems(3) by simp
  have a4: "\<forall>p\<in>set (glob_JPG (st_fs s1) arg). plain_class (parent_name p) \<and>
           (p \<in> set xs \<or> class_directory p @ [last p] \<in> set (map fst (st_fs s1)))"
  proof
    fix p assume "p \<in> set (glob_JPG (st_fs s1) arg)"
    with st(4) [of arg] have "p = ?k \<or> p \<in> set (glob_JPG (st_fs s) arg)" by blast
    then show "plain_class (parent_name p) \<and>
           (p \<in> set xs \<or> class_directory p @ [last p] \<in> set (map fst (st_fs s1)))"
    proof
      assume p: "p = ?k"
      have "plain_class (parent_name ?k)"
        using px by (simp add: class_directory_of_copy(1) plain_class_stem)
      moreover have "class_directory ?k @ [last ?k] = ?k"
        using px by (simp add: class_directory_of_copy(2))
      ultimately show ?thesis using st(3) p by simp
    next
      assume p: "p \<in> set (glob_JPG (st_fs s) arg)"
      with Cons.prems(4) have pl: "plain_class (parent_name p)"
        and d: "p \<in> set (x # xs) \<or> class_directory p @ [last p] \<in> set (map fst (st_fs s))"
        by blast+
      from d consider "p = x" | "p \<in> set xs"
        | "class_directory p @ [last p] \<in> set (map fst (st_fs s))" by auto
      then have "p \<in> set xs \<or> class_directory p @ [last p] \<in> set (map fst (st_fs s1))"
      proof cases
        case 1 then show ?thesis using st(3) by simp
      next
        case 2 then show ?thesis by simp
      next
        case 3 then show ?thesis using st(2) by blast
      qed
      with pl show ?thesis by simp
    qed
  qed
  show ?case by (rule Cons.IH [OF 2 st(1) a3 a4])
qed

text \<open>
  C1, amended. Let the table be a file system, let every image below the path given
  on the command line lie in a directory of a plain name, let the copies that precede
  balancing have succeeded and let \<open>target\<close> be the size of the largest class directory
  computed after them (lines 258 to 272). Then the run goes on with the balancing loop
  for that target, and in every state the file system goes through from then on (lines
  277 to 323), after every write and whether the run ends or raises, no class directory
  has more than \<open>target\<close> entries, and so in the state in which the run ends. Since an
  added entry would exceed the target otherwise, each of the eight steps is taken only
  in a class directory strictly below the target.
\<close>

theorem balancing_within_target:
  assumes "parents_listed fs"
    and "\<forall>p\<in>set (glob_JPG fs arg). plain_class (parent_name p)"
    and "copy_images lib arg \<lparr>st_fs = fs, st_rng = g, st_trace = []\<rparr> = Inr s1"
    and "len_largest_directory (st_fs s1) = Inr target"
  shows "directory_mode lib arg \<lparr>st_fs = fs, st_rng = g, st_trace = []\<rparr>
           = balance lib target arg s1 \<and>
     list_all (within_target target)
       (st_fs s1 # drop (length (st_trace s1))
          (st_trace (final (directory_mode lib arg \<lparr>st_fs = fs, st_rng = g, st_trace = []\<rparr>)))) \<and>
     within_target target
       (st_fs (final (directory_mode lib arg \<lparr>st_fs = fs, st_rng = g, st_trace = []\<rparr>)))"
proof -
  let ?s0 = "\<lparr>st_fs = fs, st_rng = g, st_trace = []\<rparr>"
  have dm: "directory_mode lib arg ?s0 = balance lib target arg s1"
    using assms(3,4) by (simp add: directory_mode_def and_then_def raising_def)
  have c: "for_each (copy_image lib) (glob_JPG fs arg) ?s0 = Inr s1"
    using assms(3) by (simp add: copy_images_def)
  have "parents_listed (st_fs s1) \<and>
     (\<forall>p\<in>set (glob_JPG (st_fs s1) arg). plain_class (parent_name p) \<and>
        class_directory p @ [last p] \<in> set (map fst (st_fs s1)))"
    using assms(1,2) by (intro copy_images_present [OF c]) simp_all
  moreover have w: "within_target target (st_fs s1)"
    using assms(4) by (rule len_largest_directory_bounds)
  ultimately have "balanced_so_far target arg (st_fs s1)"
    by (simp add: balanced_so_far_def list_all_iff)
  then have "balancing_invariant (length (st_trace s1)) target arg [] s1"
    by (simp add: balancing_invariant_def)
  then have "balancing_invariant (length (st_trace s1)) target arg []
      (final (balance lib target arg s1))"
    by (rule inv_balance)
  then show ?thesis
    using w by (simp add: dm balancing_invariant_def balanced_so_far_def)
qed

end
